theory Spec2Isabelle
  imports Main "HOL-Library.Sublist"
begin

section \<open>Python strings\<close>

text \<open>
  The scripts run under Python 2 with \<open>unicode_literals\<close>; every string they handle is a
  unicode string. A string is modelled as a \<open>char list\<close> holding its UTF-8 bytes. The only
  non-ASCII character the code names is the space sentinel U+20AC, three bytes in UTF-8.
  The literals and separators used by the code are ASCII, so that a replacement or a split
  on the bytes is the same as on the code points. Where the code counts code points or asks
  the interpreter's Unicode tables, the model says so at the definition.
\<close>

datatype py_error = ValueError | AssertionError | IndexError

definition euro :: string where
  "euro = [CHR 0xE2, CHR 0x82, CHR 0xAC]"

definition apo :: char where
  "apo = CHR 0x27"

text \<open>\<open>s.split(c)\<close> for a separator of one character: every occurrence splits, empty
  pieces are kept, and the empty string gives one empty piece.\<close>

fun split_on :: "char \<Rightarrow> string \<Rightarrow> string list" where
  "split_on c [] = [[]]"
| "split_on c (x # xs) =
     (if x = c then [] # split_on c xs
      else (case split_on c xs of
              [] \<Rightarrow> [[x]]
            | w # ws \<Rightarrow> (x # w) # ws))"

text \<open>\<open>sep.join(xs)\<close>.\<close>

fun join :: "string \<Rightarrow> string list \<Rightarrow> string" where
  "join sep [] = []"
| "join sep [x] = x"
| "join sep (x # y # ys) = x @ sep @ join sep (y # ys)"

text \<open>\<open>s.replace(old, new)\<close>: the occurrences of \<open>old\<close> are taken from left to right
  and do not overlap. With an empty \<open>old\<close> Python puts \<open>new\<close> around every character.\<close>

function replace :: "string \<Rightarrow> string \<Rightarrow> string \<Rightarrow> string" where
  "replace old new s =
     (if old = [] then new @ concat (map (\<lambda>c. c # new) s)
      else if s = [] then []
      else if prefix old s then new @ replace old new (drop (length old) s)
      else hd s # replace old new (tl s))"
  by pat_completeness auto
termination
  by (relation "measure (\<lambda>(old, new, s). length s)") auto

declare replace.simps [simp del]

text \<open>\<open>p in s\<close> for strings.\<close>

fun contains :: "string \<Rightarrow> string \<Rightarrow> bool" where
  "contains p [] = (p = [])"
| "contains p (c # cs) = (prefix p (c # cs) \<or> contains p cs)"

text \<open>\<open>s.endswith(p)\<close>.\<close>

definition endswith :: "string \<Rightarrow> string \<Rightarrow> bool" where
  "endswith s p = suffix p s"

definition is_digit :: "char \<Rightarrow> bool" where
  "is_digit c = (c \<in> set ''0123456789'')"

text \<open>The ASCII characters that a unicode string counts as white space.\<close>

definition is_space :: "char \<Rightarrow> bool" where
  "is_space c = (c \<in> {CHR '' '', CHR 0x09, CHR 0x0A, CHR 0x0B, CHR 0x0C, CHR 0x0D,
                         CHR 0x1C, CHR 0x1D, CHR 0x1E, CHR 0x1F})"

definition is_ascii :: "char \<Rightarrow> bool" where
  "is_ascii c = ((of_char c :: nat) < 128)"

definition digit_val :: "char \<Rightarrow> nat" where
  "digit_val c = of_char c - 48"

definition digit_chr :: "nat \<Rightarrow> char" where
  "digit_chr d = ''0123456789'' ! d"

fun digits_val :: "nat \<Rightarrow> string \<Rightarrow> nat" where
  "digits_val acc [] = acc"
| "digits_val acc (c # cs) = digits_val (10 * acc + digit_val c) cs"

text \<open>\<open>int(s)\<close> on a string of ASCII characters: white space around the literal is
  dropped, one sign is allowed, and at least one decimal digit must follow; anything else
  raises ValueError, which the caller catches (\<open>None\<close> here).\<close>

definition int_ascii :: "string \<Rightarrow> int option" where
  "int_ascii s =
     (let t = rev (dropWhile is_space (rev (dropWhile is_space s)));
          neg = (t \<noteq> [] \<and> hd t = CHR ''-'');
          ds = (if t \<noteq> [] \<and> (hd t = CHR ''-'' \<or> hd t = CHR ''+'') then tl t else t)
      in if ds \<noteq> [] \<and> list_all is_digit ds
         then Some (if neg then - int (digits_val 0 ds) else int (digits_val 0 ds))
         else None)"

text \<open>\<open>int(s)\<close> on a unicode string. When the string has a character beyond ASCII the
  interpreter consults its Unicode tables (other decimal digits, other white space); that
  part of the interpreter is the parameter \<open>uni\<close>.\<close>

definition py_int :: "(string \<Rightarrow> int option) \<Rightarrow> string \<Rightarrow> int option" where
  "py_int uni s = (if list_all is_ascii s then int_ascii s else uni s)"

text \<open>\<open>"%s" % n\<close> for a non-negative integer.\<close>

function show_nat :: "nat \<Rightarrow> string" where
  "show_nat n = (if n < 10 then [digit_chr n] else show_nat (n div 10) @ [digit_chr (n mod 10)])"
  by pat_completeness auto
termination
  by (relation "measure id") auto

declare show_nat.simps [simp del]

section \<open>MRL.count_arguments\<close>

text \<open>
  The loop of \<open>count_arguments\<close> over the characters still to read. The state is
  \<open>(args_found, num_brackets, num_commas)\<close>; the loop ends at the end of the string, when
  its condition fails, or at the \<open>break\<close>.
\<close>

fun count_loop :: "bool \<Rightarrow> int \<Rightarrow> nat \<Rightarrow> string \<Rightarrow> bool \<times> int \<times> nat" where
  "count_loop args_found num_brackets num_commas [] = (args_found, num_brackets, num_commas)"
| "count_loop args_found num_brackets num_commas (c # cs) =
     (if (\<not> args_found \<and> num_brackets = 0) \<or> (args_found \<and> num_brackets > 0) then
        (if c = CHR ''('' then count_loop True (num_brackets + 1) num_commas cs
         else if c = CHR '')'' then count_loop args_found (num_brackets - 1) num_commas cs
         else if num_brackets = 1 \<and> c = CHR '','' then
           count_loop args_found num_brackets (num_commas + 1) cs
         else if num_brackets < 1 \<and> c = CHR '','' then (args_found, num_brackets, num_commas)
         else count_loop args_found num_brackets num_commas cs)
      else (args_found, num_brackets, num_commas))"

definition count_arguments :: "string \<Rightarrow> py_error + nat" where
  "count_arguments s =
     (case count_loop False 0 0 s of
        (args_found, num_brackets, num_commas) \<Rightarrow>
          if args_found then Inr (num_commas + 1)
          else if num_commas = 0 then Inr 0
          else Inl AssertionError)"

section \<open>NLmaps.transform_if_tree\<close>

text \<open>
  The state of the reconstructor's loop: the stack of remaining arities (its top is the
  head of the list), the pieces appended to \<open>mrl\<close>, and \<open>prev\<close>.
\<close>

record rstate =
  stack_arity :: "int list"
  mrl :: "string list"
  prev :: string

datatype step_result = Raise py_error | Return string | Next rstate

text \<open>The inner \<open>while len(stack_arity) > 0\<close> loop that closes completed ancestors.\<close>

fun close_loop :: "int list \<Rightarrow> string list \<Rightarrow> int list \<times> string list" where
  "close_loop [] out = ([], out)"
| "close_loop (tp # st) out =
     (if tp > 1 then ((tp - 1) # st, out @ ['',''])
      else close_loop st (out @ ['')'']))"

text \<open>The branch \<open>arity <= 0\<close> of the loop body.\<close>

definition quote_leaf :: "string \<Rightarrow> string" where
  "quote_leaf body = [apo] @ replace euro '' '' body @ [apo]"

definition leaf_step :: "rstate \<Rightarrow> string \<Rightarrow> bool \<Rightarrow> step_result" where
  "leaf_step st body arity_s_found =
     (if arity_s_found \<and> stack_arity st = [] then Return []
      else
        let element = (if arity_s_found \<or> prev st = ''keyval'' \<or> prev st = ''findkey''
                       then quote_leaf body else body)
        in (case close_loop (stack_arity st) (mrl st @ [element]) of
              (stk, out) \<Rightarrow> Next \<lparr>stack_arity = stk, mrl = out, prev = element\<rparr>))"

text \<open>One pass of the \<open>for element in lin\<close> loop. \<open>element.rsplit("@")\<close> splits at
  every \<open>@\<close>; unpacking its result into two names raises ValueError unless there are
  exactly two pieces.\<close>

definition transform_step :: "(string \<Rightarrow> int option) \<Rightarrow> rstate \<Rightarrow> string \<Rightarrow> step_result" where
  "transform_step uni st element =
     (if CHR ''@'' \<notin> set element then Return []
      else
        (case split_on CHR ''@'' element of
           [body, arity] \<Rightarrow>
             (if arity = ''s'' then leaf_step st body True
              else
                (case py_int uni arity of
                   None \<Rightarrow> Return []
                 | Some a \<Rightarrow>
                     if a > 0 then
                       Next \<lparr>stack_arity = a # stack_arity st,
                             mrl = mrl st @ [body, ''(''],
                             prev = body\<rparr>
                     else leaf_step st body False))
         | _ \<Rightarrow> Raise ValueError))"

fun transform_loop :: "(string \<Rightarrow> int option) \<Rightarrow> rstate \<Rightarrow> string list \<Rightarrow> py_error + string" where
  "transform_loop uni st [] = (if stack_arity st \<noteq> [] then Inr [] else Inr (concat (mrl st)))"
| "transform_loop uni st (element # lin) =
     (case transform_step uni st element of
        Raise e \<Rightarrow> Inl e
      | Return s \<Rightarrow> Inr s
      | Next st' \<Rightarrow> transform_loop uni st' lin)"

definition transform_if_tree :: "(string \<Rightarrow> int option) \<Rightarrow> string list \<Rightarrow> py_error + string" where
  "transform_if_tree uni lin = transform_loop uni \<lparr>stack_arity = [], mrl = [], prev = []\<rparr> lin"

section \<open>NLmaps.insert_pass_through_words\<close>

text \<open>\<open>xs[i]\<close>: IndexError outside the list; an index below zero counts from the end.\<close>

definition py_index :: "'a list \<Rightarrow> int \<Rightarrow> py_error + 'a" where
  "py_index xs i =
     (if 0 \<le> i \<and> i < int (length xs) then Inr (xs ! nat i)
      else if i < 0 \<and> - int (length xs) \<le> i then Inr (xs ! nat (int (length xs) + i))
      else Inl IndexError)"

text \<open>The inner loop over \<open>enumerate(stemmed)\<close>: \<open>j\<close> is the index of the head of the
  remaining stemmed tokens, \<open>cur\<close> the current value of \<open>lin[i]\<close>. The loop variable
  \<open>element\<close> keeps the original atom.\<close>

fun pass_inner :: "string \<Rightarrow> string list \<Rightarrow> string list \<Rightarrow> nat \<Rightarrow> int \<Rightarrow> string
    \<Rightarrow> py_error + string" where
  "pass_inner element non_stemmed [] j word_pos cur = Inr cur"
| "pass_inner element non_stemmed (stemmed_element # rest) j word_pos cur =
     (let word_pos = (if element = stemmed_element then int j else word_pos)
      in if word_pos \<noteq> -1 then
           (case py_index non_stemmed word_pos of
              Inl e \<Rightarrow> Inl e
            | Inr w \<Rightarrow> pass_inner element non_stemmed rest (Suc j) (-1) (w @ ''@s''))
         else pass_inner element non_stemmed rest (Suc j) word_pos cur)"

fun pass_outer :: "string list \<Rightarrow> string list \<Rightarrow> string list \<Rightarrow> py_error + string list" where
  "pass_outer non_stemmed stemmed [] = Inr []"
| "pass_outer non_stemmed stemmed (element # lin) =
     (case (if CHR ''@'' \<notin> set element
            then pass_inner element non_stemmed stemmed 0 (-1) element
            else Inr element) of
        Inl e \<Rightarrow> Inl e
      | Inr x \<Rightarrow>
          (case pass_outer non_stemmed stemmed lin of
             Inl e \<Rightarrow> Inl e
           | Inr xs \<Rightarrow> Inr (x # xs)))"

definition insert_pass_through_words :: "string list \<Rightarrow> string \<Rightarrow> string
    \<Rightarrow> py_error + string list" where
  "insert_pass_through_words lin non_stemmed stemmed =
     (let non_stemmed = split_on CHR '' '' non_stemmed;
          stemmed = split_on CHR '' '' stemmed
      in if length non_stemmed \<noteq> length stemmed then Inr lin
         else pass_outer non_stemmed stemmed lin)"

section \<open>NLmaps.add_missing_at and NLmaps.functionalise\<close>

text \<open>A string without its last code point: the last byte and the continuation bytes
  (\<open>0x80\<close> to \<open>0xBF\<close>) that lead up to it go, and so does the lead byte when
  there were continuation bytes.\<close>

definition is_continuation :: "char \<Rightarrow> bool" where
  "is_continuation c = (128 \<le> (of_char c :: nat) \<and> (of_char c :: nat) < 192)"

definition drop_last_code_point :: "string \<Rightarrow> string" where
  "drop_last_code_point s = rev (drop 1 (dropWhile is_continuation (rev s)))"

text \<open>\<open>element.endswith("@", -2, -1)\<close> looks at the slice \<open>element[-2:-1]\<close>: it holds
  when the last code point but one is \<open>@\<close>.\<close>

definition add_missing_at :: "string list \<Rightarrow> string list" where
  "add_missing_at lin =
     map (\<lambda>element.
            if endswith (drop_last_code_point element) ''@''
            then element else element @ ''@s'') lin"

text \<open>The decoding of the sentinels at the end of \<open>functionalise\<close>.\<close>

definition decode_sentinels :: "string \<Rightarrow> string" where
  "decode_sentinels m =
     replace ''SAVECOMMA'' '',''
       (replace ''BRACKETCLOSE'' '')''
          (replace ''BRACKETOPEN'' ''(''
             (replace ''SAVEAPO'' [apo] m)))"

text \<open>
  \<open>functionalise(lin, non_stemmed, stemmed, cfg, insert_missing_at)\<close>. An argument left
  at \<open>None\<close> is \<open>None\<close> here. \<open>check_MRL_tree\<close> runs an external decoder; its verdict on
  the reconstructed query is the parameter \<open>cfg\<close>. The parameter \<open>uni\<close> is that of
  \<open>py_int\<close>.
\<close>

definition functionalise :: "(string \<Rightarrow> int option) \<Rightarrow> string \<Rightarrow> string option \<Rightarrow> string option
    \<Rightarrow> (string \<Rightarrow> bool) option \<Rightarrow> bool \<Rightarrow> py_error + string" where
  "functionalise uni lin non_stemmed stemmed cfg insert_missing_at =
     (let lin = replace ''<topx>'' [] lin;
          lin = replace ''</topx>'' ''@0'' lin;
          lin = split_on CHR '' '' lin
      in case (case (non_stemmed, stemmed) of
                 (Some ns, Some st) \<Rightarrow> insert_pass_through_words lin ns st
               | _ \<Rightarrow> Inr lin) of
           Inl e \<Rightarrow> Inl e
         | Inr lin \<Rightarrow>
             (let lin = (if insert_missing_at then add_missing_at lin else lin)
              in case transform_if_tree uni lin of
                   Inl e \<Rightarrow> Inl e
                 | Inr m \<Rightarrow>
                     if m = [] then Inr []
                     else if (case cfg of None \<Rightarrow> False | Some valid \<Rightarrow> \<not> valid m) then Inr []
                     else Inr (decode_sentinels m)))"

section \<open>evaluate (eval.py)\<close>

text \<open>The loop of \<open>evaluate\<close> over \<open>zip(hypos, golds)\<close>, with its counters \<open>tp\<close>,
  \<open>empty\<close> (here \<open>n_empty\<close>), \<open>fp\<close> and the list \<open>sigf\<close>. The summary line is floating point and is
  left out.\<close>

fun evaluate_loop :: "(string \<times> string) list \<Rightarrow> nat \<times> nat \<times> nat \<times> string list
    \<Rightarrow> nat \<times> nat \<times> nat \<times> string list" where
  "evaluate_loop [] acc = acc"
| "evaluate_loop ((hyp, gold) # rest) (tp, n_empty, fp, sigf) =
     (if hyp = gold then evaluate_loop rest (tp + 1, n_empty, fp, sigf @ [''1 1 1''])
      else if hyp = ''empty'' \<or> hyp = [] \<or> contains ''Warning::Issue in line'' hyp then
        evaluate_loop rest (tp, n_empty + 1, fp, sigf @ [''0 0 1''])
      else evaluate_loop rest (tp, n_empty, fp + 1, sigf @ [''0 1 1'']))"

definition evaluate_sigf :: "string list \<Rightarrow> string list \<Rightarrow> string list" where
  "evaluate_sigf hypos golds = snd (snd (snd (evaluate_loop (zip hypos golds) (0, 0, 0, []))))"

section \<open>Regular expressions\<close>

text \<open>
  The patterns of \<open>mrl.py\<close> use literals, character classes, greedy and lazy repetition
  of a single character class, capture groups that are not repeated, a look-behind and a
  look-ahead of one character, and the word boundary. A pattern is a list of items; a group
  is written with an opening and a closing mark. \<open>x+\<close> is written \<open>x x*\<close> and \<open>x+?\<close> is
  written \<open>x x*?\<close>, which match the same way. No pattern is compiled with the UNICODE
  flag, so \<open>\\w\<close> and \<open>\\s\<close> are the ASCII classes, and a byte of a character beyond
  ASCII is in neither.
\<close>

datatype cls = Any | Ch char | OneOf "char list" | NoneOf "char list" | Space

fun in_cls :: "cls \<Rightarrow> char \<Rightarrow> bool" where
  "in_cls Any c = (c \<noteq> CHR 0x0A)"
| "in_cls (Ch x) c = (c = x)"
| "in_cls (OneOf xs) c = (c \<in> set xs)"
| "in_cls (NoneOf xs) c = (c \<notin> set xs)"
| "in_cls Space c = (c \<in> {CHR '' '', CHR 0x09, CHR 0x0A, CHR 0x0B, CHR 0x0C, CHR 0x0D})"

datatype item =
    One cls
  | Star cls
  | StarLazy cls
  | Open nat
  | Close nat
  | Behind cls
  | Ahead cls
  | WordB

definition is_word :: "char \<Rightarrow> bool" where
  "is_word c = (c \<in> set ''abcdefghijklmnopqrstuvwxyzABCDEFGHIJKLMNOPQRSTUVWXYZ0123456789_'')"

text \<open>\<open>\\b\<close>: the characters on the two sides differ in being word characters; outside
  the string there is no word character.\<close>

definition at_boundary :: "char option \<Rightarrow> string \<Rightarrow> bool" where
  "at_boundary p s =
     ((case p of None \<Rightarrow> False | Some c \<Rightarrow> is_word c)
      \<noteq> (case s of [] \<Rightarrow> False | c # cs \<Rightarrow> is_word c))"

type_synonym groups = "nat \<Rightarrow> nat \<times> nat"

text \<open>
  The backtracking matcher. \<open>rmatch rs p s i g\<close> matches the items \<open>rs\<close> at position
  \<open>i\<close>, where \<open>s\<close> is the text from \<open>i\<close> on and \<open>p\<close> the character before it; it gives
  the end of the first match in the order in which a backtracking matcher tries them (a
  greedy repetition takes one more character first, a lazy one tries the rest of the
  pattern first), with the start and end of every group.
\<close>

fun rmatch :: "item list \<Rightarrow> char option \<Rightarrow> string \<Rightarrow> nat \<Rightarrow> groups \<Rightarrow> (nat \<times> groups) option" where
  "rmatch [] p s i g = Some (i, g)"
| "rmatch (One k # rs) p [] i g = None"
| "rmatch (One k # rs) p (x # xs) i g =
     (if in_cls k x then rmatch rs (Some x) xs (Suc i) g else None)"
| "rmatch (Star k # rs) p [] i g = rmatch rs p [] i g"
| "rmatch (Star k # rs) p (x # xs) i g =
     (if in_cls k x then
        (case rmatch (Star k # rs) (Some x) xs (Suc i) g of
           Some r \<Rightarrow> Some r
         | None \<Rightarrow> rmatch rs p (x # xs) i g)
      else rmatch rs p (x # xs) i g)"
| "rmatch (StarLazy k # rs) p [] i g = rmatch rs p [] i g"
| "rmatch (StarLazy k # rs) p (x # xs) i g =
     (case rmatch rs p (x # xs) i g of
        Some r \<Rightarrow> Some r
      | None \<Rightarrow> if in_cls k x then rmatch (StarLazy k # rs) (Some x) xs (Suc i) g else None)"
| "rmatch (Open n # rs) p s i g = rmatch rs p s i (g(n := (i, i)))"
| "rmatch (Close n # rs) p s i g = rmatch rs p s i (g(n := (fst (g n), i)))"
| "rmatch (Behind k # rs) p s i g =
     (case p of None \<Rightarrow> None | Some c \<Rightarrow> if in_cls k c then rmatch rs p s i g else None)"
| "rmatch (Ahead k # rs) p s i g =
     (case s of [] \<Rightarrow> None | c # cs \<Rightarrow> if in_cls k c then rmatch rs p s i g else None)"
| "rmatch (WordB # rs) p s i g = (if at_boundary p s then rmatch rs p s i g else None)"

text \<open>\<open>re.search\<close>: the first position, from the left, at which the pattern matches; the
  result is the start, the end and the groups.\<close>

fun rsearch :: "item list \<Rightarrow> char option \<Rightarrow> string \<Rightarrow> nat \<Rightarrow> (nat \<times> nat \<times> groups) option" where
  "rsearch rs p [] i =
     (case rmatch rs p [] i (\<lambda>n. (0, 0)) of None \<Rightarrow> None | Some (e, g) \<Rightarrow> Some (i, e, g))"
| "rsearch rs p (x # xs) i =
     (case rmatch rs p (x # xs) i (\<lambda>n. (0, 0)) of
        Some (e, g) \<Rightarrow> Some (i, e, g)
      | None \<Rightarrow> rsearch rs (Some x) xs (Suc i))"

text \<open>A replacement template: text and group references \<open>\\g<n>\<close>. \<open>expand\<close> fills it
  in; \<open>s\<close> is the text from position \<open>i\<close> on.\<close>

datatype tpiece = T string | G nat

fun expand :: "tpiece list \<Rightarrow> groups \<Rightarrow> nat \<Rightarrow> string \<Rightarrow> string" where
  "expand [] g i s = []"
| "expand (T t # ts) g i s = t @ expand ts g i s"
| "expand (G n # ts) g i s =
     take (snd (g n) - fst (g n)) (drop (fst (g n) - i) s) @ expand ts g i s"

text \<open>
  \<open>re.sub\<close>: the matches are taken from left to right and do not overlap; the text
  between them is kept and each match is replaced by the expanded template. After a match
  of \<open>e\<close> characters the next \<open>e - 1\<close> characters are passed over (\<open>skip\<close>). An empty
  match directly after the previous match is not replaced (\<open>adj\<close>), as in Python 2.
\<close>

fun rsub :: "item list \<Rightarrow> tpiece list \<Rightarrow> nat \<Rightarrow> bool \<Rightarrow> char option \<Rightarrow> string \<Rightarrow> string" where
  "rsub rs tm skip adj p [] =
     (if 0 < skip then []
      else (case rmatch rs p [] 0 (\<lambda>n. (0, 0)) of
              None \<Rightarrow> []
            | Some (e, g) \<Rightarrow> if adj then [] else expand tm g 0 []))"
| "rsub rs tm skip adj p (x # xs) =
     (if 0 < skip then rsub rs tm (skip - 1) True (Some x) xs
      else (case rmatch rs p (x # xs) 0 (\<lambda>n. (0, 0)) of
              None \<Rightarrow> x # rsub rs tm 0 False (Some x) xs
            | Some (e, g) \<Rightarrow>
                if e = 0 then
                  (if adj then x # rsub rs tm 0 False (Some x) xs
                   else expand tm g 0 (x # xs) @ x # rsub rs tm 0 False (Some x) xs)
                else expand tm g 0 (x # xs) @ rsub rs tm (e - 1) True (Some x) xs))"

definition re_sub :: "item list \<Rightarrow> tpiece list \<Rightarrow> string \<Rightarrow> string" where
  "re_sub rs tm s = rsub rs tm 0 False None s"

definition lit :: "string \<Rightarrow> item list" where
  "lit s = map (\<lambda>c. One (Ch c)) s"

section \<open>MRL.delete_first_n_occurences, NLmaps.linearise and NLmaps.preprocess_mrl\<close>

text \<open>
  \<open>s.strip()\<close> on a unicode string removes the white-space code points at both ends.
  \<open>uspace\<close> lists their UTF-8 encodings: U+0009 to U+000D, U+001C to U+0020, U+0085,
  U+00A0, U+1680, U+180E, U+2000 to U+200A, U+2028, U+2029, U+202F, U+205F and U+3000.
\<close>

definition uspace :: "string list" where
  "uspace =
     map (\<lambda>c. [c]) [CHR '' '', CHR 0x09, CHR 0x0A, CHR 0x0B, CHR 0x0C, CHR 0x0D,
                    CHR 0x1C, CHR 0x1D, CHR 0x1E, CHR 0x1F]
     @ [[CHR 0xC2, CHR 0x85], [CHR 0xC2, CHR 0xA0],
        [CHR 0xE1, CHR 0x9A, CHR 0x80], [CHR 0xE1, CHR 0xA0, CHR 0x8E]]
     @ map (\<lambda>c. [CHR 0xE2, CHR 0x80, c])
         [CHR 0x80, CHR 0x81, CHR 0x82, CHR 0x83, CHR 0x84, CHR 0x85, CHR 0x86, CHR 0x87,
          CHR 0x88, CHR 0x89, CHR 0x8A, CHR 0xA8, CHR 0xA9, CHR 0xAF]
     @ [[CHR 0xE2, CHR 0x81, CHR 0x9F], [CHR 0xE3, CHR 0x80, CHR 0x80]]"

function strip_front :: "string list \<Rightarrow> string \<Rightarrow> string" where
  "strip_front ws s =
     (case find (\<lambda>w. w \<noteq> [] \<and> prefix w s) ws of
        None \<Rightarrow> s
      | Some w \<Rightarrow> strip_front ws (drop (length w) s))"
  by pat_completeness auto
termination
  by (relation "measure (\<lambda>(ws, s). length s)") (auto simp: find_Some_iff prefix_def)

declare strip_front.simps [simp del]

definition strip :: "string \<Rightarrow> string" where
  "strip s = rev (strip_front (map rev uspace) (rev (strip_front uspace s)))"

text \<open>
  \<open>delete_first_n_occurences\<close>: the pattern is \<open>\\b\<close>, the escaped element, \<open>\\b\<close>. Each
  pass searches the string that the pass before has cut. When the search finds nothing,
  \<open>m.end()\<close> raises, the \<open>except\<close> catches it and the empty string is returned.
\<close>

fun delete_first_n_occurences :: "string \<Rightarrow> string \<Rightarrow> nat \<Rightarrow> string" where
  "delete_first_n_occurences string_to_shorten element 0 = string_to_shorten"
| "delete_first_n_occurences string_to_shorten element (Suc n) =
     (case rsearch ([WordB] @ lit element @ [WordB]) None string_to_shorten 0 of
        None \<Rightarrow> []
      | Some (b, e, g) \<Rightarrow> delete_first_n_occurences (drop e string_to_shorten) element n)"

text \<open>The loop of \<open>linearise\<close> over the bare words, with the dictionary
  \<open>seen_string_x_times\<close>, whose default is 0. The argument \<open>mrl\<close> of the source is
  \<open>m\<close> here and in \<open>preprocess_mrl\<close>.\<close>

fun linearise_loop :: "string \<Rightarrow> (string \<Rightarrow> nat) \<Rightarrow> string list \<Rightarrow> py_error + string list" where
  "linearise_loop m seen_string_x_times [] = Inr []"
| "linearise_loop m seen_string_x_times (element # rest) =
     (let seen_string_x_times = seen_string_x_times(element := seen_string_x_times element + 1)
      in if endswith element ''@s'' then
           (case linearise_loop m seen_string_x_times rest of
              Inl e \<Rightarrow> Inl e
            | Inr lin \<Rightarrow> Inr (element # lin))
         else
           (case count_arguments
                   (delete_first_n_occurences m element (seen_string_x_times element)) of
              Inl e \<Rightarrow> Inl e
            | Inr args \<Rightarrow>
                (case linearise_loop m seen_string_x_times rest of
                   Inl e \<Rightarrow> Inl e
                 | Inr lin \<Rightarrow> Inr ((element @ ''@'' @ show_nat args) # lin))))"

definition linearise :: "string \<Rightarrow> py_error + string" where
  "linearise m =
     (let just_words = replace ''('' '' '' m;
          just_words = replace '')'' '' '' just_words;
          just_words = replace '','' '' '' just_words;
          just_words = re_sub [One Space, Star Space] [T '' ''] just_words;
          just_words = strip just_words
      in case linearise_loop m (\<lambda>w. 0) (split_on CHR '' '' just_words) of
           Inl e \<Rightarrow> Inl e
         | Inr lin \<Rightarrow> Inr (join '' '' lin))"

text \<open>The patterns and templates of \<open>preprocess_mrl\<close>, in the order of the source.\<close>

definition np :: cls where
  "np = NoneOf ''()''"

definition re_comma :: "item list" where
  "re_comma = [Open 1] @ lit [apo, CHR '','', apo] @ [StarLazy np, Close 1, One (Ch CHR '',''),
               Open 2, StarLazy np, One (Ch apo), Close 2]"

definition re_bracket_open :: "item list" where
  "re_bracket_open = lit [CHR '','', apo] @ [Star (Ch CHR '' ''), Open 1, StarLazy np, Close 1,
               One (Ch CHR ''(''), Open 2, StarLazy Any, Close 2, Star (Ch CHR '' '')]
               @ lit [apo, CHR '')'']"

definition re_bracket_close :: "item list" where
  "re_bracket_close = lit [CHR '','', apo] @ [Star (Ch CHR '' ''), Open 1, StarLazy np, Close 1,
               One (Ch CHR '')''), Open 2, StarLazy np, Close 2, Star (Ch CHR '' '')]
               @ lit [apo, CHR '')'']"

definition re_apo :: "item list" where
  "re_apo = [Behind (NoneOf '',()''), One (Ch apo), Ahead (NoneOf '',()'')]"

definition re_and :: "item list" where
  "re_and = lit ''and('' @ [One (Ch apo), Star (Ch CHR '' ''), Open 1, One np, StarLazy np, Close 1,
               Star (Ch CHR '' '')] @ lit [apo, CHR '','', apo]
               @ [Star (Ch CHR '' ''), Open 2, One np, StarLazy np, Close 2, Star (Ch CHR '' '')]
               @ lit [apo, CHR '')'']"

definition re_leaf :: "item list" where
  "re_leaf = [One (Ch CHR ''(''), One (Ch apo), Star (Ch CHR '' ''), Open 1, One np, StarLazy np,
               Close 1, Star (Ch CHR '' '')] @ lit [apo, CHR '')'']"

definition re_or :: "item list" where
  "re_or = [Open 1, One (OneOf '',)(''), Close 1] @ lit ''or('' @ [Open 2, One np, StarLazy np, Close 2]
               @ lit [apo, CHR '','', apo] @ [Open 3, One np, StarLazy np, Close 3] @ lit ''@s)''"

definition preprocess_mrl :: "string \<Rightarrow> py_error + string" where
  "preprocess_mrl m =
     (let m = re_sub re_comma [G 1, T ''SAVECOMMA'', G 2] m;
          m = re_sub re_bracket_open [T [CHR '','', apo], G 1, T ''BRACKETOPEN'', G 2, T [apo, CHR '')'']] m;
          m = re_sub re_bracket_close [T [CHR '','', apo], G 1, T ''BRACKETCLOSE'', G 2, T [apo, CHR '')'']] m;
          m = replace '' '' euro m;
          m = re_sub re_apo [T ''SAVEAPO''] m;
          m = re_sub re_and [T ''and('', G 1, T (''@s'' @ [apo, CHR '','', apo]), G 2, T ''@s)''] m;
          m = re_sub re_leaf [T ''('', G 1, T ''@s)''] m;
          m = re_sub re_or [G 1, T ''or('', G 2, T (''@s'' @ [apo, CHR '','', apo]), G 3, T ''@s)''] m;
          m = re_sub [One Space, Star Space] [T '' ''] m;
          m = re_sub [One (Ch apo)] [] m;
          m = strip m
      in linearise m)"

section \<open>Reference definitions\<close>

text \<open>The arity of the first token of a partial query, read off the string: the first
  structural character decides whether an argument list is entered, and inside it the
  commas at depth one are counted up to the matching closing parenthesis.\<close>

definition structural :: "char \<Rightarrow> bool" where
  "structural c = (c = CHR ''('' \<or> c = CHR '')'' \<or> c = CHR '','')"

fun commas_depth1 :: "nat \<Rightarrow> string \<Rightarrow> nat" where
  "commas_depth1 d [] = 0"
| "commas_depth1 d (c # cs) =
     (if d = 0 then 0
      else if c = CHR ''('' then commas_depth1 (d + 1) cs
      else if c = CHR '')'' then commas_depth1 (d - 1) cs
      else if c = CHR '','' \<and> d = 1 then 1 + commas_depth1 d cs
      else commas_depth1 d cs)"

definition arity_spec :: "string \<Rightarrow> nat" where
  "arity_spec s =
     (case dropWhile (\<lambda>c. \<not> structural c) s of
        [] \<Rightarrow> 0
      | c # rest \<Rightarrow> if c = CHR ''('' then commas_depth1 1 rest + 1 else 0)"


text \<open>The significance triple of one hypothesis/gold pair.\<close>

definition sigf_triple :: "string \<Rightarrow> string \<Rightarrow> string" where
  "sigf_triple hyp gold =
     (if hyp = gold then ''1 1 1''
      else if hyp = ''empty'' \<or> hyp = [] \<or> contains ''Warning::Issue in line'' hyp
      then ''0 0 1'' else ''0 1 1'')"

text \<open>The last position at which a list holds a value.\<close>

fun last_pos :: "'a \<Rightarrow> 'a list \<Rightarrow> nat option" where
  "last_pos a [] = None"
| "last_pos a (x # xs) =
     (case last_pos a xs of
        Some k \<Rightarrow> Some (Suc k)
      | None \<Rightarrow> if x = a then Some 0 else None)"

text \<open>What the pass-through inserter makes of one atom: a bare atom found in the stemmed
  stream becomes the non-stemmed token at the last position where it is found, tagged
  \<open>@s\<close>; any other atom stays.\<close>

definition pass_atom :: "string list \<Rightarrow> string list \<Rightarrow> string \<Rightarrow> string" where
  "pass_atom N S a =
     (if CHR ''@'' \<notin> set a
      then (case last_pos a S of None \<Rightarrow> a | Some k \<Rightarrow> N ! k @ ''@s'')
      else a)"

text \<open>The white-space tokens of a string (\<open>s.split()\<close>): the maximal runs of characters
  that are not white space. \<open>cur\<close> is the run being read.\<close>

fun ws_split :: "string \<Rightarrow> string \<Rightarrow> string list" where
  "ws_split cur [] = (if cur = [] then [] else [cur])"
| "ws_split cur (c # cs) =
     (if is_space c then (if cur = [] then ws_split [] cs else cur # ws_split [] cs)
      else ws_split (cur @ [c]) cs)"

definition ws_tokens :: "string \<Rightarrow> string list" where
  "ws_tokens s = ws_split [] s"

text \<open>The pieces the reconstructor emits for a run of leaves of declared arity 0 on an empty
  stack, \<open>p\<close> being the look-back slot before the run.\<close>

fun emit_leaves :: "string \<Rightarrow> string list \<Rightarrow> string list" where
  "emit_leaves p [] = []"
| "emit_leaves p (b # bs) =
     (let e = (if p = ''keyval'' \<or> p = ''findkey'' then quote_leaf b else b)
      in e # emit_leaves e bs)"

text \<open>A string no proper suffix of which is a prefix of it: two occurrences of such a
  string never overlap.\<close>

definition border_free :: "string \<Rightarrow> bool" where
  "border_free p = (\<forall>k \<in> set [1..<length p]. \<not> prefix (drop k p) p)"

text \<open>A value for the parameter \<open>uni\<close> of \<open>py_int\<close> that takes no string with a character
  beyond ASCII for a number. The concrete inputs evaluated below are ASCII, where the
  parameter is not consulted.\<close>

definition ascii_only :: "string \<Rightarrow> int option" where
  "ascii_only s = None"

text \<open>A query in which the string leaf of a \<open>keyval\<close> is also the name of the functor
  that follows, and what the escaping steps of \<open>preprocess_mrl\<close> make of it.\<close>

definition q1 :: string where
  "q1 = ''a(keyval('' @ [apo] @ ''k'' @ [apo] @ '','' @ [apo] @ ''b'' @ [apo] @ ''),b(c))''"

definition m1 :: string where
  "m1 = ''a(keyval(k,b@s),b(c))''"

section \<open>Facts about the string operations\<close>

lemma replace_Nil: "old \<noteq> [] \<Longrightarrow> replace old new [] = []"
  by (simp add: replace.simps)

lemma replace_match:
  "old \<noteq> [] \<Longrightarrow> s \<noteq> [] \<Longrightarrow> prefix old s \<Longrightarrow>
     replace old new s = new @ replace old new (drop (length old) s)"
  by (subst replace.simps) simp

lemma replace_skip:
  "old \<noteq> [] \<Longrightarrow> s \<noteq> [] \<Longrightarrow> \<not> prefix old s \<Longrightarrow>
     replace old new s = hd s # replace old new (tl s)"
  by (subst replace.simps) simp

lemma replace_Cons_match:
  "old \<noteq> [] \<Longrightarrow> prefix old (c # cs) \<Longrightarrow>
     replace old new (c # cs) = new @ replace old new (drop (length old) (c # cs))"
  by (rule replace_match) simp_all

lemma replace_Cons_skip:
  "old \<noteq> [] \<Longrightarrow> \<not> prefix old (c # cs) \<Longrightarrow> replace old new (c # cs) = c # replace old new cs"
  using replace_skip[of old "c # cs" new] by simp

lemmas replace_eval = replace_Nil replace_Cons_match replace_Cons_skip

lemma prefix_append_fit:
  "prefix p (a @ z) \<Longrightarrow> length p \<le> length a \<Longrightarrow> prefix p a"
  by (metis prefix_length_prefix prefixI)

lemma replace_separator:
  "old \<noteq> [] \<Longrightarrow> c \<notin> set old \<Longrightarrow>
     replace old new (a @ c # b) = replace old new a @ c # replace old new b"
proof (induction a rule: length_induct)
  case (1 a)
  show ?case
  proof (cases "a = []")
    case True
    have "\<not> prefix old (c # b)" using 1(2,3) by (cases old) auto
    then show ?thesis using True 1(2) by (simp add: replace_eval)
  next
    case False
    show ?thesis
    proof (cases "prefix old (a @ c # b)")
      case True
      then obtain z where z: "a @ c # b = old @ z" by (auto simp: prefix_def)
      have fit: "length old \<le> length a"
      proof (rule ccontr)
        assume "\<not> length old \<le> length a"
        then have l: "length a < length old" by simp
        from z have "(a @ c # b) ! length a = (old @ z) ! length a" by simp
        then have "c = old ! length a" using l by (simp add: nth_append)
        with l 1(3) show False by (metis nth_mem)
      qed
      from True fit have pa: "prefix old a" by (rule prefix_append_fit)
      have dr: "drop (length old) (a @ c # b) = drop (length old) a @ c # b"
        using fit by simp
      have sh: "length (drop (length old) a) < length a"
        using 1(2) False by simp
      have "replace old new (a @ c # b) = new @ replace old new (drop (length old) a @ c # b)"
        using replace_match[OF 1(2) _ True] False dr by simp
      also have "\<dots> = new @ replace old new (drop (length old) a) @ c # replace old new b"
        using 1(1)[rule_format, OF sh 1(2,3)] by simp
      also have "\<dots> = replace old new a @ c # replace old new b"
        using replace_match[OF 1(2) False pa, of new] by simp
      finally show ?thesis .
    next
      case np: False
      then have npa: "\<not> prefix old a" by (auto simp: prefix_def)
      have sh: "length (tl a) < length a" using False by simp
      have "replace old new (a @ c # b) = hd a # replace old new (tl a @ c # b)"
        using replace_skip[OF 1(2) _ np] False by simp
      also have "\<dots> = hd a # replace old new (tl a) @ c # replace old new b"
        using 1(1)[rule_format, OF sh 1(2,3)] by simp
      also have "\<dots> = replace old new a @ c # replace old new b"
        using replace_skip[OF 1(2) False npa, of new] by simp
      finally show ?thesis .
    qed
  qed
qed

lemma replace_occurrence:
  assumes bf: "border_free old" and ne: "old \<noteq> []"
  shows "replace old new (a @ old @ b) = replace old new a @ new @ replace old new b"
proof (induction a rule: length_induct)
  case (1 a)
  show ?case
  proof (cases "a = []")
    case True
    have "replace old new (old @ b) = new @ replace old new (drop (length old) (old @ b))"
      using ne by (intro replace_match) simp_all
    then show ?thesis using True ne by (simp add: replace_Nil)
  next
    case False
    show ?thesis
    proof (cases "prefix old (a @ old @ b)")
      case True
      then obtain z where z: "a @ old @ b = old @ z" by (auto simp: prefix_def)
      have fit: "length old \<le> length a"
      proof (rule ccontr)
        assume "\<not> length old \<le> length a"
        then have l: "length a < length old" by simp
        define k where "k = length a"
        have k: "0 < k" "k < length old" using l False by (auto simp: k_def)
        from z have "drop k (a @ old @ b) = drop k (old @ z)" by simp
        then have "old @ b = drop k old @ z" using k by (simp add: k_def)
        then have "take (length old - k) (old @ b) = drop k old" using k by simp
        then have "take (length old - k) old = drop k old" by simp
        then have "prefix (drop k old) old" by (metis take_is_prefix)
        moreover have "k \<in> set [1..<length old]" using k by simp
        ultimately show False using bf by (auto simp: border_free_def)
      qed
      from True fit have pa: "prefix old a" by (rule prefix_append_fit)
      have dr: "drop (length old) (a @ old @ b) = drop (length old) a @ old @ b"
        using fit by simp
      have sh: "length (drop (length old) a) < length a"
        using ne False by simp
      have "replace old new (a @ old @ b) = new @ replace old new (drop (length old) a @ old @ b)"
        using replace_match[OF ne _ True] False dr by simp
      also have "\<dots> = new @ replace old new (drop (length old) a) @ new @ replace old new b"
        using 1[rule_format, OF sh] by simp
      also have "\<dots> = replace old new a @ new @ replace old new b"
        using replace_match[OF ne False pa, of new] by simp
      finally show ?thesis .
    next
      case np: False
      then have npa: "\<not> prefix old a" by (auto simp: prefix_def)
      have sh: "length (tl a) < length a" using False by simp
      have "replace old new (a @ old @ b) = hd a # replace old new (tl a @ old @ b)"
        using replace_skip[OF ne _ np] False by simp
      also have "\<dots> = hd a # replace old new (tl a) @ new @ replace old new b"
        using 1[rule_format, OF sh] by simp
      also have "\<dots> = replace old new a @ new @ replace old new b"
        using replace_skip[OF ne False npa, of new] by simp
      finally show ?thesis .
    qed
  qed
qed

lemma border_free_topx: "border_free ''<topx>''" "border_free ''</topx>''"
  by (simp_all add: border_free_def upt_rec)


lemma replace_disjoint_tail:
  assumes "old \<noteq> []" "set x \<inter> set old = {}"
  shows "replace old new (a @ x) = replace old new a @ x"
  using assms(2)
proof (induction x arbitrary: a rule: rev_induct)
  case Nil
  then show ?case by simp
next
  case (snoc c x)
  then have c: "c \<notin> set old" and x: "set x \<inter> set old = {}" by auto
  have "replace old new ((a @ x) @ c # []) = replace old new (a @ x) @ c # replace old new []"
    by (rule replace_separator[OF assms(1) c])
  then show ?case using snoc.IH[OF x] assms(1) by (simp add: replace_Nil)
qed

lemma topx_open_deleted:
  "replace ''<topx>'' [] (a @ ''<topx>'' @ b) = replace ''<topx>'' [] a @ replace ''<topx>'' [] b"
  using replace_occurrence[OF border_free_topx(1), of "[]" a b] by simp

lemma topx_close_replaced:
  "replace ''</topx>'' ''@0'' (a @ ''</topx>'' @ b)
     = replace ''</topx>'' ''@0'' a @ ''@0'' @ replace ''</topx>'' ''@0'' b"
  using replace_occurrence[OF border_free_topx(2), of "''@0''" a b] by simp

lemma topx_pair_as_arity0:
  assumes x: "set x \<inter> set ''<topx>'' = {}"
  shows "replace ''</topx>'' ''@0'' (replace ''<topx>'' [] (pre @ ''<topx>'' @ x @ ''</topx>'' @ post))
       = replace ''</topx>'' ''@0'' (replace ''<topx>'' [] (pre @ x @ ''@0'' @ post))"
proof -
  let ?R1 = "replace ''<topx>'' []" and ?R2 = "replace ''</topx>'' ''@0''"
  have cl: "?R1 (''</topx>'' @ post) = ''</topx>'' @ ?R1 post"
    by (simp add: replace_Cons_skip)
  have "?R1 ([] @ x @ (''</topx>'' @ post)) = x @ ?R1 (''</topx>'' @ post)"
    using x
  proof (induction x)
    case Nil
    then show ?case by simp
  next
    case (Cons c x)
    then have "\<not> prefix ''<topx>'' (c # x @ ''</topx>'' @ post)" by auto
    then show ?case using Cons by (simp add: replace_Cons_skip)
  qed
  then have l1: "?R1 (pre @ ''<topx>'' @ x @ ''</topx>'' @ post) = ?R1 pre @ x @ ''</topx>'' @ ?R1 post"
    using topx_open_deleted[of pre "x @ ''</topx>'' @ post"] cl by simp
  have l2: "?R2 (?R1 pre @ x @ ''</topx>'' @ ?R1 post) = ?R2 (?R1 pre @ x) @ ''@0'' @ ?R2 (?R1 post)"
    using topx_close_replaced[of "?R1 pre @ x" "?R1 post"] by simp
  have px: "?R1 (pre @ x) = ?R1 pre @ x"
    by (rule replace_disjoint_tail[OF _ x]) simp
  have "?R1 ((pre @ x) @ CHR ''@'' # (''0'' @ post)) = ?R1 (pre @ x) @ CHR ''@'' # ?R1 (''0'' @ post)"
    by (rule replace_separator) simp_all
  then have r1: "?R1 (pre @ x @ ''@0'' @ post) = ?R1 pre @ x @ ''@0'' @ ?R1 post"
    using px by (simp add: replace_Cons_skip)
  have "?R2 ((?R1 pre @ x) @ CHR ''@'' # (''0'' @ ?R1 post))
          = ?R2 (?R1 pre @ x) @ CHR ''@'' # ?R2 (''0'' @ ?R1 post)"
    by (rule replace_separator) simp_all
  then have r2: "?R2 (?R1 pre @ x @ ''@0'' @ ?R1 post) = ?R2 (?R1 pre @ x) @ ''@0'' @ ?R2 (?R1 post)"
    by (simp add: replace_Cons_skip)
  show ?thesis unfolding l1 l2 r1 r2 ..
qed

lemma split_on_absent: "c \<notin> set s \<Longrightarrow> split_on c s = [s]"
  by (induction s) auto

lemma split_on_once:
  "c \<notin> set b \<Longrightarrow> c \<notin> set s \<Longrightarrow> split_on c (b @ c # s) = [b, s]"
  by (induction b) (auto simp: split_on_absent)

lemmas tt_eval = transform_if_tree_def transform_step_def leaf_step_def quote_leaf_def
  py_int_def int_ascii_def is_ascii_def is_space_def is_digit_def digit_val_def Let_def
  replace_eval euro_def apo_def

lemma count_loop_stopped:
  "\<not> ((\<not> af \<and> d = 0) \<or> (af \<and> d > 0)) \<Longrightarrow> count_loop af d n s = (af, d, n)"
  by (cases s) auto

lemma count_loop_entered:
  "0 < k \<Longrightarrow> \<exists>x. count_loop True (int k) n s = (True, x, n + commas_depth1 k s)"
proof (induction s arbitrary: k n)
  case Nil
  then show ?case by simp
next
  case (Cons c cs)
  have up: "int k + 1 = int (k + 1)" by simp
  show ?case
  proof (cases "k = 1")
    case True
    have z: "count_loop True 0 n cs = (True, 0, n)" by (simp add: count_loop_stopped)
    have c0: "commas_depth1 0 cs = 0" by (cases cs) auto
    from True show ?thesis
      using Cons.IH[of 2 n] Cons.IH[of 1 "n + 1"] Cons.IH[of 1 n] z c0
      by (simp del: count_loop.simps(2) add: count_loop.simps(2)[of True 1 n c cs] numeral_2_eq_2)
  next
    case False
    with Cons.prems have k2: "1 < k" by simp
    then have dn: "int k - 1 = int (k - 1)" by simp
    from k2 show ?thesis
      using Cons.IH[of "k + 1" n] Cons.IH[of "k - 1" n] Cons.IH[of k n]
      by (simp only: count_loop.simps(2) commas_depth1.simps(2) up dn) auto
  qed
qed

lemma count_loop_head:
  "count_loop False 0 0 s =
     (case dropWhile (\<lambda>c. \<not> structural c) s of
        [] \<Rightarrow> (False, 0, 0)
      | c # rest \<Rightarrow>
          if c = CHR ''('' then count_loop True 1 0 rest
          else if c = CHR '')'' then (False, -1, 0)
          else (False, 0, 0))"
  by (induction s) (auto simp: structural_def count_loop_stopped)

lemma count_arguments_arity_spec: "count_arguments s = Inr (arity_spec s)"
proof (cases "dropWhile (\<lambda>c. \<not> structural c) s")
  case Nil
  then show ?thesis
    unfolding count_arguments_def arity_spec_def count_loop_head by (simp only:) simp
next
  case (Cons c rest)
  from count_loop_entered[of 1 0 rest]
  obtain x where r: "count_loop True 1 0 rest = (True, x, commas_depth1 1 rest)" by auto
  show ?thesis
    unfolding count_arguments_def arity_spec_def count_loop_head Cons using r
    by simp
qed


lemma count_loop_append_running:
  "count_loop af d n pre = (True, d', n') \<Longrightarrow> 0 < d' \<Longrightarrow>
     count_loop af d n (pre @ post) = count_loop True d' n' post"
proof (induction pre arbitrary: af d n)
  case Nil
  then show ?case by simp
next
  case (Cons c cs)
  show ?case
  proof (cases "(\<not> af \<and> d = 0) \<or> (af \<and> d > 0)")
    case True
    with Cons.prems Cons.IH show ?thesis
      by (auto split: if_splits)
  next
    case False
    with Cons.prems show ?thesis by (auto simp: count_loop_stopped)
  qed
qed

lemma count_loop_append_stopped:
  "count_loop af d n pre = (True, 0, n') \<Longrightarrow> count_loop af d n (pre @ post) = (True, 0, n')"
proof (induction pre arbitrary: af d n)
  case Nil
  then show ?case by (simp add: count_loop_stopped)
next
  case (Cons c cs)
  show ?case
  proof (cases "(\<not> af \<and> d = 0) \<or> (af \<and> d > 0)")
    case True
    with Cons.prems Cons.IH show ?thesis
      by (auto split: if_splits)
  next
    case False
    with Cons.prems show ?thesis by (auto simp: count_loop_stopped)
  qed
qed

lemma arity_spec_comma_first:
  "CHR ''('' \<notin> set h \<Longrightarrow> arity_spec (h @ '','' @ rest) = 0"
  by (induction h) (auto simp: arity_spec_def structural_def)

text \<open>Claim C3. For every string, \<open>count_arguments\<close> returns the number of commas at depth
  exactly one, plus one, when the scan enters an opening parenthesis, and 0 otherwise. The
  empty string gives 0, a tail that begins with \<open>()\<close> gives 1, nothing after the return
  to depth 0 is read, a comma before any opening parenthesis gives 0, and a comma at a depth
  greater than one does not change the result.\<close>

theorem count_arguments_arity:
  "count_arguments s = Inr (arity_spec s)
   \<and> count_arguments [] = Inr 0
   \<and> count_arguments (''()'' @ t) = Inr 1
   \<and> (count_loop False 0 0 pre = (True, 0, n) \<longrightarrow>
        count_arguments (pre @ rest) = count_arguments pre)
   \<and> (CHR ''('' \<notin> set h \<longrightarrow> count_arguments (h @ '','' @ rest) = Inr 0)
   \<and> (count_loop False 0 0 pre = (True, d, n) \<and> 1 < d \<longrightarrow>
        count_arguments (pre @ '','' @ post) = count_arguments (pre @ post))"
proof (intro conjI impI)
  show "count_arguments s = Inr (arity_spec s)" by (rule count_arguments_arity_spec)
  show "count_arguments [] = Inr 0" by (simp add: count_arguments_def)
  show "count_arguments (''()'' @ t) = Inr 1"
    by (cases t) (simp_all add: count_arguments_def)
  show "count_arguments (pre @ rest) = count_arguments pre"
    if "count_loop False 0 0 pre = (True, 0, n)"
    using that count_loop_append_stopped[OF that, of rest] by (simp add: count_arguments_def)
  show "count_arguments (h @ '','' @ rest) = Inr 0" if "CHR ''('' \<notin> set h"
    by (simp only: count_arguments_arity_spec arity_spec_comma_first[OF that])
  show "count_arguments (pre @ '','' @ post) = count_arguments (pre @ post)"
    if "count_loop False 0 0 pre = (True, d, n) \<and> 1 < d"
  proof -
    from that have p: "count_loop False 0 0 pre = (True, d, n)" and d: "0 < d" "1 < d" by auto
    have "count_loop False 0 0 (pre @ '','' @ post) = count_loop True d n ('','' @ post)"
      by (rule count_loop_append_running[OF p d(1)])
    also have "\<dots> = count_loop True d n post" using d by simp
    also have "\<dots> = count_loop False 0 0 (pre @ post)"
      by (rule count_loop_append_running[OF p d(1), symmetric])
    finally show ?thesis by (simp add: count_arguments_def)
  qed
qed

theorem count_arguments_arity_witness:
  "count_arguments ''(a,b(c,d),e),f'' = Inr 3
   \<and> count_loop False 0 0 ''x(a)'' = (True, 0, 0)
   \<and> count_arguments (''x(a)'' @ '',b(c,d)'') = count_arguments ''x(a)''
   \<and> CHR ''('' \<notin> set ''x''
   \<and> count_arguments (''x'' @ '','' @ ''f(a,b)'') = Inr 0
   \<and> count_loop False 0 0 ''f(a,g(b'' = (True, 2, 1) \<and> (1::int) < 2
   \<and> count_arguments (''f(a,g(b'' @ '','' @ ''c),d)'') = count_arguments (''f(a,g(b'' @ ''c),d)'')"
proof -
  have a: "count_loop False 0 0 ''x(a)'' = (True, 0, 0)" by simp
  have b: "CHR ''('' \<notin> set ''x''" by simp
  have c: "count_loop False 0 0 ''f(a,g(b'' = (True, 2, 1) \<and> (1::int) < 2" by simp
  have v: "arity_spec ''(a,b(c,d),e),f'' = 3" by (simp add: arity_spec_def structural_def)
  from count_arguments_arity[of "''(a,b(c,d),e),f''" "[]" "''x(a)''" 0 "'',b(c,d)''" "''x''" 2]
  have "count_arguments ''(a,b(c,d),e),f'' = Inr 3"
    and "count_arguments (''x(a)'' @ '',b(c,d)'') = count_arguments ''x(a)''"
    using a v by auto
  moreover from count_arguments_arity[of "[]" "[]" "[]" 0 "''f(a,b)''" "''x''" 2]
  have "count_arguments (''x'' @ '','' @ ''f(a,b)'') = Inr 0" using b by auto
  moreover from count_arguments_arity[of "[]" "[]" "''f(a,g(b''" 1 "[]" "[]" 2 "''c),d)''"]
  have "count_arguments (''f(a,g(b'' @ '','' @ ''c),d)'') = count_arguments (''f(a,g(b'' @ ''c),d)'')"
    using c by blast
  ultimately show ?thesis using a b c by blast
qed

lemma contains_iff: "contains p s \<longleftrightarrow> (\<exists>a b. s = a @ p @ b)"
proof (induction s)
  case Nil
  then show ?case by auto
next
  case (Cons c cs)
  show ?case
  proof
    assume "contains p (c # cs)"
    then consider "prefix p (c # cs)" | "contains p cs" by auto
    then show "\<exists>a b. c # cs = a @ p @ b"
    proof cases
      case 1
      then obtain b where "c # cs = p @ b" by (auto simp: prefix_def)
      then have "c # cs = [] @ p @ b" by simp
      then show ?thesis by blast
    next
      case 2
      with Cons.IH obtain a b where "cs = a @ p @ b" by auto
      then have "c # cs = (c # a) @ p @ b" by simp
      then show ?thesis by blast
    qed
  next
    assume "\<exists>a b. c # cs = a @ p @ b"
    then obtain a b where ab: "c # cs = a @ p @ b" by auto
    show "contains p (c # cs)"
    proof (cases a)
      case Nil
      with ab have "prefix p (c # cs)" by (simp add: prefix_def)
      then show ?thesis by simp
    next
      case (Cons x a')
      with ab have "cs = a' @ p @ b" by simp
      with Cons.IH show ?thesis by auto
    qed
  qed
qed

lemma evaluate_loop_sigf:
  "snd (snd (snd (evaluate_loop ps (tp, ne, fp, sigf)))) =
     sigf @ map (\<lambda>(h, g). sigf_triple h g) ps"
proof (induction ps arbitrary: tp ne fp sigf)
  case Nil
  then show ?case by simp
next
  case (Cons p ps)
  obtain h g where p: "p = (h, g)" by (cases p)
  show ?case unfolding p
    by (simp add: Cons.IH sigf_triple_def del: append_assoc)
qed

text \<open>Claim C8. \<open>evaluate\<close> emits one triple for every zipped hypothesis/gold pair; it is one
  of \<open>1 1 1\<close>, \<open>0 0 1\<close>, \<open>0 1 1\<close>: the first iff the hypothesis equals the gold, the
  second iff they differ and the hypothesis is \<open>empty\<close>, the empty string or contains
  \<open>Warning::Issue in line\<close>, the third otherwise.\<close>

theorem evaluate_sigf_triples:
  "length (evaluate_sigf hypos golds) = min (length hypos) (length golds)
   \<and> (\<forall>i < min (length hypos) (length golds).
        (let hyp = hypos ! i; gold = golds ! i; t = evaluate_sigf hypos golds ! i;
             is_empty = (hyp = ''empty'' \<or> hyp = [] \<or> (\<exists>a b. hyp = a @ ''Warning::Issue in line'' @ b))
         in t \<in> {''1 1 1'', ''0 0 1'', ''0 1 1''}
            \<and> (t = ''1 1 1'' \<longleftrightarrow> hyp = gold)
            \<and> (t = ''0 0 1'' \<longleftrightarrow> hyp \<noteq> gold \<and> is_empty)
            \<and> (t = ''0 1 1'' \<longleftrightarrow> hyp \<noteq> gold \<and> \<not> is_empty)))"
proof -
  have e: "evaluate_sigf hypos golds = map (\<lambda>(h, g). sigf_triple h g) (zip hypos golds)"
    by (simp add: evaluate_sigf_def evaluate_loop_sigf)
  show ?thesis
    unfolding e Let_def by (simp add: sigf_triple_def contains_iff)
qed

theorem evaluate_sigf_triples_witness:
  "(1::nat) < min (length [''a'', ''empty'', ''c'']) (length [''a'', ''x'', ''y'', ''z''])
   \<and> evaluate_sigf [''a'', ''empty'', ''c''] [''a'', ''x'', ''y'', ''z''] ! 1 = ''0 0 1''
   \<and> length (evaluate_sigf [''a'', ''empty'', ''c''] [''a'', ''x'', ''y'', ''z'']) = 3"
proof -
  have i: "(1::nat) < min (length [''a'', ''empty'', ''c'']) (length [''a'', ''x'', ''y'', ''z''])"
    by simp
  from evaluate_sigf_triples[of "[''a'', ''empty'', ''c'']" "[''a'', ''x'', ''y'', ''z'']"]
  have l: "length (evaluate_sigf [''a'', ''empty'', ''c''] [''a'', ''x'', ''y'', ''z'']) = 3"
    and "\<forall>i < min (length [''a'', ''empty'', ''c'']) (length [''a'', ''x'', ''y'', ''z'']).
        (let hyp = [''a'', ''empty'', ''c''] ! i; gold = [''a'', ''x'', ''y'', ''z''] ! i;
             t = evaluate_sigf [''a'', ''empty'', ''c''] [''a'', ''x'', ''y'', ''z''] ! i;
             is_empty = (hyp = ''empty'' \<or> hyp = [] \<or> (\<exists>a b. hyp = a @ ''Warning::Issue in line'' @ b))
         in t \<in> {''1 1 1'', ''0 0 1'', ''0 1 1''}
            \<and> (t = ''1 1 1'' \<longleftrightarrow> hyp = gold)
            \<and> (t = ''0 0 1'' \<longleftrightarrow> hyp \<noteq> gold \<and> is_empty)
            \<and> (t = ''0 1 1'' \<longleftrightarrow> hyp \<noteq> gold \<and> \<not> is_empty))"
    by simp_all
  from this(2)[rule_format, OF i]
  have "evaluate_sigf [''a'', ''empty'', ''c''] [''a'', ''x'', ''y'', ''z''] ! 1 = ''0 0 1''"
    by (simp add: Let_def)
  with i l show ?thesis by blast
qed

lemma last_pos_None: "last_pos a xs = None \<longleftrightarrow> a \<notin> set xs"
  by (induction xs) (auto split: option.splits)

lemma last_pos_Some:
  "last_pos a xs = Some k \<Longrightarrow>
     k < length xs \<and> xs ! k = a \<and> (\<forall>m < length xs. k < m \<longrightarrow> xs ! m \<noteq> a)"
proof (induction xs arbitrary: k)
  case Nil
  then show ?case by simp
next
  case (Cons x xs)
  show ?case
  proof (cases "last_pos a xs")
    case None
    with Cons.prems have k: "k = 0" "x = a" by (auto split: if_splits)
    from None have notin: "a \<notin> set xs" by (simp add: last_pos_None)
    have "(x # xs) ! m \<noteq> a" if "m < length (x # xs)" "0 < m" for m
    proof -
      from that obtain m' where m: "m = Suc m'" "m' < length xs" by (cases m) auto
      then have "xs ! m' \<in> set xs" by simp
      with notin m show ?thesis by auto
    qed
    with k show ?thesis by simp
  next
    case (Some k')
    with Cons.prems have k: "k = Suc k'" by simp
    from Cons.IH[OF Some] have ih: "k' < length xs" "xs ! k' = a"
      "\<forall>m < length xs. k' < m \<longrightarrow> xs ! m \<noteq> a" by auto
    have "(x # xs) ! m \<noteq> a" if "m < length (x # xs)" "Suc k' < m" for m
    proof -
      from that obtain m' where m: "m = Suc m'" "m' < length xs" "k' < m'" by (cases m) auto
      with ih(3) show ?thesis by simp
    qed
    with k ih(1,2) show ?thesis by simp
  qed
qed

lemma pass_inner_last_pos:
  "j + length rest = length N \<Longrightarrow>
   pass_inner e N rest j (-1) cur =
     Inr (case last_pos e rest of None \<Rightarrow> cur | Some k \<Rightarrow> N ! (j + k) @ ''@s'')"
proof (induction rest arbitrary: j cur)
  case Nil
  then show ?case by simp
next
  case (Cons se rest)
  from Cons.prems have len: "Suc j + length rest = length N" and jN: "j < length N" by auto
  have idx: "py_index N (int j) = Inr (N ! j)" using jN by (simp add: py_index_def Let_def)
  show ?case
  proof (cases "e = se")
    case True
    have "pass_inner e N (se # rest) j (-1) cur = pass_inner e N rest (Suc j) (-1) (N ! j @ ''@s'')"
      using True idx by (simp add: Let_def)
    also have "\<dots> = Inr (case last_pos e rest of None \<Rightarrow> N ! j @ ''@s'' | Some k \<Rightarrow> N ! (Suc j + k) @ ''@s'')"
      by (rule Cons.IH[OF len])
    also have "\<dots> = Inr (case last_pos e (se # rest) of None \<Rightarrow> cur | Some k \<Rightarrow> N ! (j + k) @ ''@s'')"
      using True by (cases "last_pos e rest") simp_all
    finally show ?thesis .
  next
    case False
    have "pass_inner e N (se # rest) j (-1) cur = pass_inner e N rest (Suc j) (-1) cur"
      using False by (simp add: Let_def)
    also have "\<dots> = Inr (case last_pos e rest of None \<Rightarrow> cur | Some k \<Rightarrow> N ! (Suc j + k) @ ''@s'')"
      by (rule Cons.IH[OF len])
    also have "\<dots> = Inr (case last_pos e (se # rest) of None \<Rightarrow> cur | Some k \<Rightarrow> N ! (j + k) @ ''@s'')"
      using False by (cases "last_pos e rest") simp_all
    finally show ?thesis .
  qed
qed

lemma pass_outer_map:
  "length N = length S \<Longrightarrow> pass_outer N S lin = Inr (map (pass_atom N S) lin)"
proof (induction lin)
  case Nil
  then show ?case by simp
next
  case (Cons a lin)
  from Cons.prems have "0 + length S = length N" by simp
  from pass_inner_last_pos[OF this, of a a]
  have "pass_inner a N S 0 (-1) a = Inr (case last_pos a S of None \<Rightarrow> a | Some k \<Rightarrow> N ! k @ ''@s'')"
    by (cases "last_pos a S") simp_all
  then show ?case using Cons by (simp add: pass_atom_def)
qed

text \<open>Claim C5, as amended. When \<open>non_stemmed.split(" ")\<close> and \<open>stemmed.split(" ")\<close>
  give equally many pieces (single spaces split, empty pieces count), every atom that has
  no \<open>@\<close> and equals a piece of the stemmed stream is replaced by the piece of the
  non-stemmed stream at the last position where the stemmed stream holds the atom, followed
  by \<open>@s\<close>; every other atom is unchanged.\<close>

theorem insert_pass_through_words_last_match:
  "length (split_on CHR '' '' non_stemmed) = length (split_on CHR '' '' stemmed) \<Longrightarrow>
   \<exists>res. insert_pass_through_words lin non_stemmed stemmed = Inr res
     \<and> length res = length lin
     \<and> (\<forall>i < length lin.
          (let N = split_on CHR '' '' non_stemmed; S = split_on CHR '' '' stemmed; a = lin ! i
           in if CHR ''@'' \<notin> set a \<and> a \<in> set S
              then \<exists>j < length S. S ! j = a \<and> (\<forall>m < length S. j < m \<longrightarrow> S ! m \<noteq> a)
                     \<and> res ! i = N ! j @ ''@s''
              else res ! i = a))"
proof -
  assume len: "length (split_on CHR '' '' non_stemmed) = length (split_on CHR '' '' stemmed)"
  define N where "N = split_on CHR '' '' non_stemmed"
  define S where "S = split_on CHR '' '' stemmed"
  have run: "insert_pass_through_words lin non_stemmed stemmed = Inr (map (pass_atom N S) lin)"
    using len pass_outer_map[of N S lin] by (simp add: insert_pass_through_words_def Let_def N_def S_def)
  have atom: "if CHR ''@'' \<notin> set a \<and> a \<in> set S
              then \<exists>j < length S. S ! j = a \<and> (\<forall>m < length S. j < m \<longrightarrow> S ! m \<noteq> a)
                     \<and> pass_atom N S a = N ! j @ ''@s''
              else pass_atom N S a = a" for a
  proof (cases "last_pos a S")
    case None
    then have "a \<notin> set S" by (simp add: last_pos_None)
    then show ?thesis using None by (simp add: pass_atom_def)
  next
    case (Some k)
    from last_pos_Some[OF Some] have k: "k < length S" "S ! k = a"
      "\<forall>m < length S. k < m \<longrightarrow> S ! m \<noteq> a" by auto
    then have "a \<in> set S" by (metis nth_mem)
    show ?thesis
    proof (cases "CHR ''@'' \<notin> set a")
      case True
      then have "pass_atom N S a = N ! k @ ''@s''" using Some by (simp add: pass_atom_def)
      with k True \<open>a \<in> set S\<close> show ?thesis by auto
    next
      case False
      then show ?thesis by (simp add: pass_atom_def)
    qed
  qed
  have "\<forall>i < length lin.
          (let N' = split_on CHR '' '' non_stemmed; S' = split_on CHR '' '' stemmed; a = lin ! i
           in if CHR ''@'' \<notin> set a \<and> a \<in> set S'
              then \<exists>j < length S'. S' ! j = a \<and> (\<forall>m < length S'. j < m \<longrightarrow> S' ! m \<noteq> a)
                     \<and> map (pass_atom N S) lin ! i = N' ! j @ ''@s''
              else map (pass_atom N S) lin ! i = a)"
    using atom unfolding Let_def N_def[symmetric] S_def[symmetric] by simp
  with run show ?thesis by simp
qed

text \<open>Claim C6, as amended. When \<open>non_stemmed.split(" ")\<close> and \<open>stemmed.split(" ")\<close>
  give different numbers of pieces, \<open>insert_pass_through_words\<close> returns its input list
  unchanged; and on no input does it raise an error.\<close>

theorem insert_pass_through_words_mismatch:
  "(length (split_on CHR '' '' non_stemmed) \<noteq> length (split_on CHR '' '' stemmed) \<longrightarrow>
      insert_pass_through_words lin non_stemmed stemmed = Inr lin)
   \<and> (\<exists>res. insert_pass_through_words lin non_stemmed stemmed = Inr res)"
proof (cases "length (split_on CHR '' '' non_stemmed) = length (split_on CHR '' '' stemmed)")
  case True
  then show ?thesis
    using pass_outer_map[of "split_on CHR '' '' non_stemmed" "split_on CHR '' '' stemmed" lin]
    by (simp add: insert_pass_through_words_def Let_def)
next
  case False
  then show ?thesis by (simp add: insert_pass_through_words_def Let_def)
qed

theorem insert_pass_through_words_mismatch_witness:
  "length (split_on CHR '' '' ''noise Paris noise'') \<noteq> length (split_on CHR '' '' ''noise pari'')
   \<and> insert_pass_through_words [''name@0'', ''pari''] ''noise Paris noise'' ''noise pari''
       = Inr [''name@0'', ''pari'']"
proof -
  have h: "length (split_on CHR '' '' ''noise Paris noise'') \<noteq> length (split_on CHR '' '' ''noise pari'')"
    by simp
  from insert_pass_through_words_mismatch[of "''noise Paris noise''" "''noise pari''" "[''name@0'', ''pari'']"] h
  show ?thesis by blast
qed

lemma sp1: "split_on CHR '' '' ''Paris noise PARIS'' = [''Paris'', ''noise'', ''PARIS'']" by simp
lemma sp2: "split_on CHR '' '' ''pari noise pari'' = [''pari'', ''noise'', ''pari'']" by simp

theorem insert_pass_through_words_last_match_witness:
  "length (split_on CHR '' '' ''Paris noise PARIS'') = length (split_on CHR '' '' ''pari noise pari'')
   \<and> (\<exists>res. insert_pass_through_words [''name@0'', ''pari'', ''x''] ''Paris noise PARIS'' ''pari noise pari'' = Inr res
        \<and> length res = 3 \<and> res ! 1 = ''PARIS@s'' \<and> res ! 2 = ''x'')"
proof -
  have h: "length (split_on CHR '' '' ''Paris noise PARIS'') = length (split_on CHR '' '' ''pari noise pari'')"
    unfolding sp1 sp2 by simp
  from insert_pass_through_words_last_match[OF h, of "[''name@0'', ''pari'', ''x'']"]
  obtain res where r: "insert_pass_through_words [''name@0'', ''pari'', ''x''] ''Paris noise PARIS'' ''pari noise pari'' = Inr res"
    and l: "length res = length [''name@0'', ''pari'', ''x'']"
    and a: "\<forall>i < length [''name@0'', ''pari'', ''x''].
          (let N = split_on CHR '' '' ''Paris noise PARIS''; S = split_on CHR '' '' ''pari noise pari'';
               a = [''name@0'', ''pari'', ''x''] ! i
           in if CHR ''@'' \<notin> set a \<and> a \<in> set S
              then \<exists>j < length S. S ! j = a \<and> (\<forall>m < length S. j < m \<longrightarrow> S ! m \<noteq> a)
                     \<and> res ! i = N ! j @ ''@s''
              else res ! i = a)" by blast
  have "insert_pass_through_words [''name@0'', ''pari'', ''x''] ''Paris noise PARIS'' ''pari noise pari''
          = Inr [''name@0'', ''PARIS@s'', ''x'']"
    by (simp add: insert_pass_through_words_def sp1 sp2 py_index_def Let_def)
  with r have "res = [''name@0'', ''PARIS@s'', ''x'']" by simp
  then have r1: "res ! 1 = ''PARIS@s''" and r2: "res ! 2 = ''x''" by simp_all
  from r l r1 r2 h show ?thesis by simp
qed

text \<open>Claim C5 as stated fails: the two streams below have one white-space token each and
  the atom equals the stemmed token, yet the atom is not replaced, because \<open>split(" ")\<close>
  gives two pieces for the first stream and one for the second.\<close>

theorem insert_pass_through_words_tokens_counterexample:
  "length (ws_tokens ''Paris '') = length (ws_tokens ''pari'')
   \<and> CHR ''@'' \<notin> set ''pari'' \<and> ''pari'' \<in> set (ws_tokens ''pari'')
   \<and> insert_pass_through_words [''pari''] ''Paris '' ''pari'' = Inr [''pari'']
   \<and> [''pari''] \<noteq> [''Paris@s'']"
  by (simp add: ws_tokens_def is_space_def insert_pass_through_words_def Let_def)

text \<open>Claim C6 as stated fails: the two streams below have two and three white-space
  tokens, yet the atom is rewritten, because \<open>split(" ")\<close> gives three pieces for both.\<close>

theorem insert_pass_through_words_mismatch_counterexample:
  "length (ws_tokens ''a  b'') \<noteq> length (ws_tokens ''a b c'')
   \<and> insert_pass_through_words [''c''] ''a  b'' ''a b c'' = Inr [''b@s'']
   \<and> [''b@s''] \<noteq> [''c'']"
  by (simp add: ws_tokens_def is_space_def insert_pass_through_words_def Let_def py_index_def)

lemma close_loop_extends: "\<exists>zs. snd (close_loop stk out) = out @ zs"
proof (induction stk arbitrary: out)
  case Nil
  then show ?case by simp
next
  case (Cons t stk)
  from Cons[of "out @ ['')'']"] show ?case by auto
qed

lemma leaf_step_emits:
  assumes "leaf_step st body sf = Next st'"
  shows "take (Suc (length (mrl st))) (mrl st') =
           mrl st @ [if sf \<or> prev st = ''keyval'' \<or> prev st = ''findkey''
                     then quote_leaf body else body]
         \<and> prev st' = (if sf \<or> prev st = ''keyval'' \<or> prev st = ''findkey''
                         then quote_leaf body else body)"
proof -
  define e where "e = (if sf \<or> prev st = ''keyval'' \<or> prev st = ''findkey''
                       then quote_leaf body else body)"
  obtain stk out where cl: "close_loop (stack_arity st) (mrl st @ [e]) = (stk, out)"
    by (cases "close_loop (stack_arity st) (mrl st @ [e])")
  from close_loop_extends[of "stack_arity st" "mrl st @ [e]"] cl
  obtain zs where out: "out = (mrl st @ [e]) @ zs" by auto
  from assms cl have st': "st' = \<lparr>stack_arity = stk, mrl = out, prev = e\<rparr>"
    by (auto simp: leaf_step_def Let_def e_def split: if_splits)
  show ?thesis unfolding e_def[symmetric] st' out by simp
qed

text \<open>Claim C4, as amended. An atom of arity 0 or less that the reconstructor processes is
  emitted wrapped in single quotes, with the space sentinel decoded, exactly when its suffix
  is \<open>s\<close> or the look-back slot is \<open>keyval\<close> or \<open>findkey\<close>, and bare otherwise;
  afterwards the look-back slot holds the text that was emitted, which is the quoted form for a
  quoted leaf and the bare body otherwise. After an atom of positive arity the slot holds the
  bare body.\<close>

theorem transform_step_quoting:
  "split_on CHR ''@'' element = [body, sfx] \<and> transform_step uni st element = Next st' \<longrightarrow>
     ((sfx = ''s'' \<or> (\<exists>a. py_int uni sfx = Some a \<and> a \<le> 0)) \<longrightarrow>
        (let quoted = (sfx = ''s'' \<or> prev st = ''keyval'' \<or> prev st = ''findkey'');
             emitted = (if quoted then [apo] @ replace euro '' '' body @ [apo] else body)
         in take (Suc (length (mrl st))) (mrl st') = mrl st @ [emitted] \<and> prev st' = emitted))
     \<and> (sfx \<noteq> ''s'' \<and> (\<exists>a. py_int uni sfx = Some a \<and> 0 < a) \<longrightarrow>
          mrl st' = mrl st @ [body, ''(''] \<and> prev st' = body)"
proof (intro impI conjI; elim conjE)
  assume sp: "split_on CHR ''@'' element = [body, sfx]"
    and nx: "transform_step uni st element = Next st'"
  {
    assume leaf: "sfx = ''s'' \<or> (\<exists>a. py_int uni sfx = Some a \<and> a \<le> 0)"
    have "leaf_step st body (sfx = ''s'') = Next st'"
      using sp nx leaf by (auto simp: transform_step_def split: if_splits option.splits)
    from leaf_step_emits[OF this]
    show "let quoted = (sfx = ''s'' \<or> prev st = ''keyval'' \<or> prev st = ''findkey'');
              emitted = (if quoted then [apo] @ replace euro '' '' body @ [apo] else body)
          in take (Suc (length (mrl st))) (mrl st') = mrl st @ [emitted] \<and> prev st' = emitted"
      by (simp add: Let_def quote_leaf_def)
  }
  {
    assume "sfx \<noteq> ''s''" "\<exists>a. py_int uni sfx = Some a \<and> 0 < a"
    then have r: "st' = \<lparr>stack_arity = the (py_int uni sfx) # stack_arity st,
                   mrl = mrl st @ [body, ''(''], prev = body\<rparr>"
      using sp nx by (auto simp: transform_step_def split: if_splits option.splits)
    show "mrl st' = mrl st @ [body, ''('']" by (simp add: r)
    show "prev st' = body" by (simp add: r)
  }
qed

theorem transform_step_quoting_witness:
  "split_on CHR ''@'' ''name@0'' = [''name'', ''0'']
   \<and> transform_step ascii_only \<lparr>stack_arity = [2], mrl = [''keyval'', ''(''], prev = ''keyval''\<rparr> ''name@0''
       = Next \<lparr>stack_arity = [1], mrl = [''keyval'', ''('', [apo] @ ''name'' @ [apo], '',''],
               prev = [apo] @ ''name'' @ [apo]\<rparr>
   \<and> py_int ascii_only ''0'' = Some 0
   \<and> take 3 [''keyval'', ''('', [apo] @ ''name'' @ [apo], '',''] = [''keyval'', ''('', [apo] @ ''name'' @ [apo]]
   \<and> split_on CHR ''@'' ''keyval@2'' = [''keyval'', ''2'']
   \<and> transform_step ascii_only \<lparr>stack_arity = [], mrl = [], prev = []\<rparr> ''keyval@2''
       = Next \<lparr>stack_arity = [2], mrl = [''keyval'', ''(''], prev = ''keyval''\<rparr>
   \<and> py_int ascii_only ''2'' = Some 2"
proof -
  let ?st = "\<lparr>stack_arity = [2], mrl = [''keyval'', ''(''], prev = ''keyval''\<rparr>"
  let ?st' = "\<lparr>stack_arity = [1], mrl = [''keyval'', ''('', [apo] @ ''name'' @ [apo], '',''],
               prev = [apo] @ ''name'' @ [apo]\<rparr>"
  let ?s0 = "\<lparr>stack_arity = [], mrl = [], prev = []\<rparr>"
  have s1: "split_on CHR ''@'' ''name@0'' = [''name'', ''0'']" by simp
  have p0: "py_int ascii_only ''0'' = Some 0" by (simp add: tt_eval)
  have t1: "transform_step ascii_only ?st ''name@0'' = Next ?st'" by (simp add: tt_eval)
  have s2: "split_on CHR ''@'' ''keyval@2'' = [''keyval'', ''2'']" by simp
  have p2: "py_int ascii_only ''2'' = Some 2" by (simp add: tt_eval)
  have t2: "transform_step ascii_only ?s0 ''keyval@2'' = Next \<lparr>stack_arity = [2], mrl = [''keyval'', ''(''], prev = ''keyval''\<rparr>"
    by (simp add: tt_eval)
  from transform_step_quoting[of "''name@0''" "''name''" "''0''" ascii_only ?st ?st'] s1 t1 p0
  have "take (Suc (length (mrl ?st))) (mrl ?st') = mrl ?st @ [[apo] @ replace euro '' '' ''name'' @ [apo]]"
    by (simp add: Let_def)
  then have a: "take 3 [''keyval'', ''('', [apo] @ ''name'' @ [apo], '',''] = [''keyval'', ''('', [apo] @ ''name'' @ [apo]]"
    by (simp add: replace_eval euro_def)
  from transform_step_quoting[of "''keyval@2''" "''keyval''" "''2''" ascii_only ?s0
      "\<lparr>stack_arity = [2], mrl = [''keyval'', ''(''], prev = ''keyval''\<rparr>"] s2 t2 p2
  have "prev \<lparr>stack_arity = [2], mrl = [''keyval'', ''(''], prev = ''keyval''\<rparr> = ''keyval''"
    by simp
  with s1 t1 p0 a s2 t2 p2 show ?thesis by blast
qed

text \<open>Claim C4 as stated fails: after a quoted leaf the look-back slot holds the quoted form,
  not the bare body, so that a string leaf \<open>keyval\<close> does not make the next leaf quoted.\<close>

theorem transform_step_prev_counterexample:
  "transform_step ascii_only \<lparr>stack_arity = [1], mrl = [''f'', ''(''], prev = ''f''\<rparr> ''x@s''
     = Next \<lparr>stack_arity = [], mrl = [''f'', ''('', [apo, CHR ''x'', apo], '')''],
             prev = [apo, CHR ''x'', apo]\<rparr>
   \<and> [apo, CHR ''x'', apo] \<noteq> ''x''
   \<and> transform_if_tree ascii_only [''f@2'', ''keyval@s'', ''x@0'']
       = Inr (''f('' @ [apo] @ ''keyval'' @ [apo] @ '',x)'')"
  by (simp add: tt_eval)


text \<open>Claim C2 at inputs that are not one rooted tree: two bare leaves, a subtree after a
  complete root, and a negative arity are all reconstructed to a non-empty string, and an atom
  with two \<open>@\<close> raises ValueError instead of giving the empty string.\<close>

theorem transform_if_tree_accepts_non_trees:
  "transform_if_tree ascii_only [''a@0'', ''b@0''] = Inr ''ab''
   \<and> transform_if_tree ascii_only [''a@0'', ''f@1'', ''b@0''] = Inr ''af(b)''
   \<and> transform_if_tree ascii_only [''a@-1''] = Inr ''a''
   \<and> transform_if_tree ascii_only [''a@b@1'', ''c''] = Inl ValueError"
  by (simp add: tt_eval)

lemma transform_step_bare_leaf:
  assumes "CHR ''@'' \<notin> set b" "CHR ''@'' \<notin> set sfx" "sfx \<noteq> ''s''" "py_int uni sfx = Some 0"
  shows "transform_step uni \<lparr>stack_arity = [], mrl = out, prev = p\<rparr> (b @ ''@'' @ sfx)
         = Next \<lparr>stack_arity = [], mrl = out @ [if p = ''keyval'' \<or> p = ''findkey'' then quote_leaf b else b],
                  prev = (if p = ''keyval'' \<or> p = ''findkey'' then quote_leaf b else b)\<rparr>"
proof -
  have sp: "split_on CHR ''@'' (b @ CHR ''@'' # sfx) = [b, sfx]"
    by (rule split_on_once[OF assms(1,2)])
  show ?thesis using sp assms(3,4) by (simp add: transform_step_def leaf_step_def Let_def)
qed

lemma transform_loop_bare_leaves:
  "\<forall>(b, sfx) \<in> set atoms. CHR ''@'' \<notin> set b \<and> CHR ''@'' \<notin> set sfx \<and> sfx \<noteq> ''s''
        \<and> py_int uni sfx = Some 0 \<Longrightarrow>
   transform_loop uni \<lparr>stack_arity = [], mrl = out, prev = p\<rparr>
       (map (\<lambda>(b, sfx). b @ ''@'' @ sfx) atoms @ rest)
     = transform_loop uni \<lparr>stack_arity = [], mrl = out @ emit_leaves p (map fst atoms),
                        prev = last (p # emit_leaves p (map fst atoms))\<rparr> rest"
proof (induction atoms arbitrary: out p)
  case Nil
  then show ?case by simp
next
  case (Cons a atoms)
  obtain b sfx where a: "a = (b, sfx)" by (cases a)
  from Cons.prems a have ok: "CHR ''@'' \<notin> set b" "CHR ''@'' \<notin> set sfx" "sfx \<noteq> ''s''"
      "py_int uni sfx = Some 0"
    and rest: "\<forall>(b, sfx) \<in> set atoms. CHR ''@'' \<notin> set b \<and> CHR ''@'' \<notin> set sfx \<and> sfx \<noteq> ''s''
        \<and> py_int uni sfx = Some 0" by auto
  define e where "e = (if p = ''keyval'' \<or> p = ''findkey'' then quote_leaf b else b)"
  have em: "emit_leaves p (map fst (a # atoms)) = e # emit_leaves e (map fst atoms)"
    by (simp add: a e_def Let_def)
  have "transform_loop uni \<lparr>stack_arity = [], mrl = out, prev = p\<rparr>
          (map (\<lambda>(b, sfx). b @ ''@'' @ sfx) (a # atoms) @ rest)
        = transform_loop uni \<lparr>stack_arity = [], mrl = out @ [e], prev = e\<rparr>
          (map (\<lambda>(b, sfx). b @ ''@'' @ sfx) atoms @ rest)"
    using transform_step_bare_leaf[OF ok, of out p] by (simp add: a e_def)
  also have "\<dots> = transform_loop uni \<lparr>stack_arity = [], mrl = (out @ [e]) @ emit_leaves e (map fst atoms),
                        prev = last (e # emit_leaves e (map fst atoms))\<rparr> rest"
    by (rule Cons.IH[OF rest])
  finally show ?case unfolding em by simp
qed

lemma emit_leaves_plain:
  "p \<noteq> ''keyval'' \<Longrightarrow> p \<noteq> ''findkey'' \<Longrightarrow> ''keyval'' \<notin> set bs \<Longrightarrow> ''findkey'' \<notin> set bs \<Longrightarrow>
     emit_leaves p bs = bs"
proof (induction bs arbitrary: p)
  case Nil
  then show ?case by simp
next
  case (Cons b bs)
  have b: "b \<noteq> ''keyval''" "b \<noteq> ''findkey''"
    using Cons.prems(3,4) by (metis list.set_intros(1))+
  have bs: "''keyval'' \<notin> set bs" "''findkey'' \<notin> set bs"
    using Cons.prems(3,4) by (metis list.set_intros(2))+
  have "emit_leaves p (b # bs) = b # emit_leaves b bs"
    unfolding emit_leaves.simps Let_def using Cons.prems(1,2) by (simp only: if_False simp_thms)
  also have "emit_leaves b bs = bs" by (rule Cons.IH[OF b bs])
  finally show ?case .
qed

text \<open>Claim C10, as amended. For every sequence of atoms of declared arity 0 (a body without
  \<open>@\<close>, then \<open>@\<close>, then a suffix without \<open>@\<close>, other than \<open>s\<close>, that \<open>int\<close>
  reads as 0) with no
  enclosing functor, \<open>transform_if_tree\<close> returns the concatenation of the emitted leaves: each
  body, wrapped in single quotes when the leaf emitted before it is \<open>keyval\<close> or
  \<open>findkey\<close>. When no body is \<open>keyval\<close> or \<open>findkey\<close> this is the concatenation of the
  bodies. A string leaf (\<open>@s\<close>) after such a sequence, on the empty stack, makes the result
  the empty string.\<close>

theorem transform_if_tree_bare_leaves:
  "(\<forall>(b, sfx) \<in> set atoms. CHR ''@'' \<notin> set b \<and> CHR ''@'' \<notin> set sfx \<and> sfx \<noteq> ''s''
        \<and> py_int uni sfx = Some 0) \<longrightarrow>
     transform_if_tree uni (map (\<lambda>(b, sfx). b @ ''@'' @ sfx) atoms)
       = Inr (concat (emit_leaves [] (map fst atoms)))
     \<and> (''keyval'' \<notin> set (map fst atoms) \<and> ''findkey'' \<notin> set (map fst atoms) \<longrightarrow>
          transform_if_tree uni (map (\<lambda>(b, sfx). b @ ''@'' @ sfx) atoms) = Inr (concat (map fst atoms)))
     \<and> (CHR ''@'' \<notin> set b' \<longrightarrow>
          transform_if_tree uni (map (\<lambda>(b, sfx). b @ ''@'' @ sfx) atoms @ (b' @ ''@s'') # rest) = Inr [])"
proof (intro impI conjI)
  assume ok: "\<forall>(b, sfx) \<in> set atoms. CHR ''@'' \<notin> set b \<and> CHR ''@'' \<notin> set sfx \<and> sfx \<noteq> ''s''
        \<and> py_int uni sfx = Some 0"
  show main: "transform_if_tree uni (map (\<lambda>(b, sfx). b @ ''@'' @ sfx) atoms)
       = Inr (concat (emit_leaves [] (map fst atoms)))"
    using transform_loop_bare_leaves[OF ok, of "[]" "[]" "[]"]
    by (simp add: transform_if_tree_def)
  show "transform_if_tree uni (map (\<lambda>(b, sfx). b @ ''@'' @ sfx) atoms) = Inr (concat (map fst atoms))"
    if "''keyval'' \<notin> set (map fst atoms) \<and> ''findkey'' \<notin> set (map fst atoms)"
  proof -
    from that have "emit_leaves [] (map fst atoms) = map fst atoms"
      by (intro emit_leaves_plain) simp_all
    with main show ?thesis by simp
  qed
  show "transform_if_tree uni (map (\<lambda>(b, sfx). b @ ''@'' @ sfx) atoms @ (b' @ ''@s'') # rest) = Inr []"
    if b': "CHR ''@'' \<notin> set b'"
  proof -
    have sp: "split_on CHR ''@'' (b' @ CHR ''@'' # ''s'') = [b', ''s'']"
      by (rule split_on_once[OF b']) simp
    have "transform_step uni \<lparr>stack_arity = [], mrl = out, prev = p\<rparr> (b' @ ''@s'') = Return []" for out p
      using sp by (simp add: transform_step_def leaf_step_def)
    then show ?thesis
      using transform_loop_bare_leaves[OF ok, of "[]" "[]" "(b' @ ''@s'') # rest"]
      by (simp add: transform_if_tree_def)
  qed
qed

lemma int_ascii_zero: "py_int ascii_only ''0'' = Some 0" "py_int ascii_only ''00'' = Some 0"
  by (simp_all add: tt_eval)

theorem transform_if_tree_bare_leaves_witness:
  "CHR ''@'' \<notin> set ''a'' \<and> CHR ''@'' \<notin> set ''keyval'' \<and> CHR ''@'' \<notin> set ''b''
   \<and> CHR ''@'' \<notin> set ''0'' \<and> CHR ''@'' \<notin> set ''00'' \<and> ''0'' \<noteq> ''s'' \<and> ''00'' \<noteq> ''s''
   \<and> py_int ascii_only ''0'' = Some 0 \<and> py_int ascii_only ''00'' = Some 0
   \<and> transform_if_tree ascii_only [''a@0'', ''keyval@0'', ''b@00''] = Inr (''akeyval'' @ [apo] @ ''b'' @ [apo])
   \<and> ''keyval'' \<notin> set (map fst [(''a'', ''0''), (''b'', ''0'')])
   \<and> ''findkey'' \<notin> set (map fst [(''a'', ''0''), (''b'', ''0'')])
   \<and> transform_if_tree ascii_only [''a@0'', ''b@0''] = Inr ''ab''
   \<and> CHR ''@'' \<notin> set ''c''
   \<and> transform_if_tree ascii_only [''a@0'', ''b@0'', ''c@s'', ''d@0''] = Inr []"
proof -
  have h1: "\<forall>(b, sfx) \<in> set [(''a'', ''0''), (''keyval'', ''0''), (''b'', ''00'')].
       CHR ''@'' \<notin> set b \<and> CHR ''@'' \<notin> set sfx \<and> sfx \<noteq> ''s'' \<and> py_int ascii_only sfx = Some 0"
    by (simp add: int_ascii_zero)
  have h2: "\<forall>(b, sfx) \<in> set [(''a'', ''0''), (''b'', ''0'')].
       CHR ''@'' \<notin> set b \<and> CHR ''@'' \<notin> set sfx \<and> sfx \<noteq> ''s'' \<and> py_int ascii_only sfx = Some 0"
    by (simp add: int_ascii_zero)
  have h3: "''keyval'' \<notin> set (map fst [(''a'', ''0''), (''b'', ''0'')])"
    "''findkey'' \<notin> set (map fst [(''a'', ''0''), (''b'', ''0'')])" "CHR ''@'' \<notin> set ''c''" by simp_all
  have e1: "concat (emit_leaves [] (map fst [(''a'', ''0''), (''keyval'', ''0''), (''b'', ''00'')]))
              = ''akeyval'' @ [apo] @ ''b'' @ [apo]"
    by (simp add: Let_def quote_leaf_def replace_eval euro_def)
  from transform_if_tree_bare_leaves[of "[(''a'', ''0''), (''keyval'', ''0''), (''b'', ''00'')]" ascii_only "[]" "[]"] h1
  have "transform_if_tree ascii_only (map (\<lambda>(b, sfx). b @ ''@'' @ sfx) [(''a'', ''0''), (''keyval'', ''0''), (''b'', ''00'')])
          = Inr (concat (emit_leaves [] (map fst [(''a'', ''0''), (''keyval'', ''0''), (''b'', ''00'')])))"
    by blast
  then have r1: "transform_if_tree ascii_only [''a@0'', ''keyval@0'', ''b@00''] = Inr (''akeyval'' @ [apo] @ ''b'' @ [apo])"
    unfolding e1 by simp
  from transform_if_tree_bare_leaves[of "[(''a'', ''0''), (''b'', ''0'')]" ascii_only "''c''" "[''d@0'']"] h2 h3
  have "transform_if_tree ascii_only (map (\<lambda>(b, sfx). b @ ''@'' @ sfx) [(''a'', ''0''), (''b'', ''0'')])
          = Inr (concat (map fst [(''a'', ''0''), (''b'', ''0'')]))"
    and "transform_if_tree ascii_only (map (\<lambda>(b, sfx). b @ ''@'' @ sfx) [(''a'', ''0''), (''b'', ''0'')] @ (''c'' @ ''@s'') # [''d@0'']) = Inr []"
    by blast+
  then have r2: "transform_if_tree ascii_only [''a@0'', ''b@0''] = Inr ''ab''"
    and r3: "transform_if_tree ascii_only [''a@0'', ''b@0'', ''c@s'', ''d@0''] = Inr []"
    by simp_all
  have h0: "CHR ''@'' \<notin> set ''a'' \<and> CHR ''@'' \<notin> set ''keyval'' \<and> CHR ''@'' \<notin> set ''b''
   \<and> CHR ''@'' \<notin> set ''0'' \<and> CHR ''@'' \<notin> set ''00'' \<and> ''0'' \<noteq> ''s'' \<and> ''00'' \<noteq> ''s''" by simp
  from h0 int_ascii_zero h3 r1 r2 r3 show ?thesis by blast
qed

text \<open>Claim C10 as stated fails: the result is not the concatenation of the bodies when a body
  is \<open>keyval\<close>, and it is the empty string when every body is empty.\<close>

theorem transform_if_tree_keyval_counterexample:
  "transform_if_tree ascii_only [''keyval@0'', ''b@0''] = Inr (''keyval'' @ [apo, CHR ''b'', apo])
   \<and> ''keyval'' @ [apo, CHR ''b'', apo] \<noteq> ''keyval'' @ ''b''
   \<and> transform_if_tree ascii_only [''@0'', ''@0''] = Inr []"
  by (simp add: tt_eval)

text \<open>Claim C9. On every call, whatever the other arguments, the result of
  \<open>functionalise\<close> depends on the linear form only through the list obtained by deleting
  \<open><topx>\<close>, then replacing \<open></topx>\<close> by \<open>@0\<close>, then splitting at single spaces.
  Every occurrence of \<open><topx>\<close> in the input is deleted and every occurrence of
  \<open></topx>\<close> is replaced by \<open>@0\<close>; a stream that contains \<open><topx>x</topx>\<close>, with
  \<open>x\<close> free of the characters of \<open><topx>\<close>, is reconstructed as the stream that contains
  \<open>x@0\<close> in its place.\<close>

theorem functionalise_topx_preprocessing:
  "(\<exists>F. \<forall>lin. functionalise uni lin non_stemmed stemmed cfg insert_missing_at
          = F (split_on CHR '' '' (replace ''</topx>'' ''@0'' (replace ''<topx>'' [] lin))))
   \<and> replace ''<topx>'' [] (a @ ''<topx>'' @ b) = replace ''<topx>'' [] a @ replace ''<topx>'' [] b
   \<and> replace ''</topx>'' ''@0'' (a @ ''</topx>'' @ b)
       = replace ''</topx>'' ''@0'' a @ ''@0'' @ replace ''</topx>'' ''@0'' b
   \<and> (set x \<inter> set ''<topx>'' = {} \<longrightarrow>
        functionalise uni (pre @ ''<topx>'' @ x @ ''</topx>'' @ post) non_stemmed stemmed cfg insert_missing_at
          = functionalise uni (pre @ x @ ''@0'' @ post) non_stemmed stemmed cfg insert_missing_at)"
proof (intro conjI impI)
  show "\<exists>F. \<forall>lin. functionalise uni lin non_stemmed stemmed cfg insert_missing_at
          = F (split_on CHR '' '' (replace ''</topx>'' ''@0'' (replace ''<topx>'' [] lin)))"
    unfolding functionalise_def Let_def
    by (rule exI[of _ "\<lambda>l. case (case (non_stemmed, stemmed) of
                 (Some ns, Some st) \<Rightarrow> insert_pass_through_words l ns st
               | _ \<Rightarrow> Inr l) of
           Inl e \<Rightarrow> Inl e
         | Inr lin \<Rightarrow>
             (case transform_if_tree uni (if insert_missing_at then add_missing_at lin else lin) of
                   Inl e \<Rightarrow> Inl e
                 | Inr m \<Rightarrow>
                     if m = [] then Inr []
                     else if (case cfg of None \<Rightarrow> False | Some valid \<Rightarrow> \<not> valid m) then Inr []
                     else Inr (decode_sentinels m))"]) simp
  show "replace ''<topx>'' [] (a @ ''<topx>'' @ b) = replace ''<topx>'' [] a @ replace ''<topx>'' [] b"
    by (rule topx_open_deleted)
  show "replace ''</topx>'' ''@0'' (a @ ''</topx>'' @ b)
       = replace ''</topx>'' ''@0'' a @ ''@0'' @ replace ''</topx>'' ''@0'' b"
    by (rule topx_close_replaced)
  show "functionalise uni (pre @ ''<topx>'' @ x @ ''</topx>'' @ post) non_stemmed stemmed cfg insert_missing_at
          = functionalise uni (pre @ x @ ''@0'' @ post) non_stemmed stemmed cfg insert_missing_at"
    if "set x \<inter> set ''<topx>'' = {}"
    unfolding functionalise_def Let_def topx_pair_as_arity0[OF that] ..
qed

theorem functionalise_topx_preprocessing_witness:
  "set ''1'' \<inter> set ''<topx>'' = {}
   \<and> functionalise ascii_only (''query@1 topx@1 '' @ ''<topx>'' @ ''1'' @ ''</topx>'' @ []) None None None False
       = functionalise ascii_only (''query@1 topx@1 '' @ ''1'' @ ''@0'' @ []) None None None False
   \<and> functionalise ascii_only ''query@1 topx@1 1@0'' None None None False = Inr ''query(topx(1))''"
proof -
  have h: "set ''1'' \<inter> set ''<topx>'' = {}" by simp
  have v: "functionalise ascii_only ''query@1 topx@1 1@0'' None None None False = Inr ''query(topx(1))''"
    by (simp add: functionalise_def decode_sentinels_def tt_eval)
  from functionalise_topx_preprocessing[of ascii_only None None None False "[]" "[]" "''1''"
      "''query@1 topx@1 ''" "[]"] h v
  show ?thesis by blast
qed

lemma count_arguments_returns: "\<exists>k. count_arguments s = Inr k"
  by (simp add: count_arguments_arity_spec)

lemma count_loop_commas_need_paren:
  "count_loop False 0 0 s = (af, d, nc) \<Longrightarrow> 0 < nc \<Longrightarrow> af"
proof (cases "dropWhile (\<lambda>c. \<not> structural c) s")
  case Nil
  assume "count_loop False 0 0 s = (af, d, nc)" "0 < nc"
  then show ?thesis unfolding count_loop_head Nil by simp
next
  case (Cons c rest)
  assume a: "count_loop False 0 0 s = (af, d, nc)" "0 < nc"
  from count_loop_entered[of 1 0 rest]
  obtain x where r: "count_loop True 1 0 rest = (True, x, commas_depth1 1 rest)" by auto
  from a show ?thesis unfolding count_loop_head Cons using r by (simp split: if_splits)
qed

lemma linearise_loop_returns: "\<exists>lin. linearise_loop m seen ws = Inr lin"
proof (induction ws arbitrary: seen)
  case Nil
  then show ?case by simp
next
  case (Cons w ws)
  define seen' where "seen' = seen(w := seen w + 1)"
  from Cons[of seen'] obtain lin where lin: "linearise_loop m seen' ws = Inr lin" by blast
  obtain k where k: "count_arguments (delete_first_n_occurences m w (seen' w)) = Inr k"
    using count_arguments_returns by blast
  show ?case
    using lin k unfolding linearise_loop.simps Let_def seen'_def[symmetric]
    by (cases "endswith w ''@s''") simp_all
qed

lemma linearise_returns: "\<exists>lin. linearise s = Inr lin"
proof -
  obtain lin where "linearise_loop s (\<lambda>w. 0)
      (split_on CHR '' '' (strip (re_sub [One Space, Star Space] [T '' '']
         (replace '','' '' '' (replace '')'' '' '' (replace ''('' '' '' s)))))) = Inr lin"
    using linearise_loop_returns by blast
  then show ?thesis by (simp add: linearise_def Let_def)
qed

text \<open>Claim C7. For every input string \<open>preprocess_mrl\<close>, \<open>linearise\<close> and
  \<open>count_arguments\<close> return a value and raise nothing (the functions of the model are
  total, so they terminate); the counter of commas can only be positive once an opening
  parenthesis has set \<open>args_found\<close>, so the assertion holds; and
  \<open>delete_first_n_occurences\<close> returns the empty string when the search for the element
  finds nothing.\<close>

theorem preprocess_mrl_total:
  "(\<exists>lin. preprocess_mrl s = Inr lin)
   \<and> (\<exists>lin. linearise s = Inr lin)
   \<and> (\<exists>k. count_arguments s = Inr k)
   \<and> (count_loop False 0 0 s = (af, d, nc) \<and> 0 < nc \<longrightarrow> af)
   \<and> (rsearch ([WordB] @ lit element @ [WordB]) None s 0 = None \<longrightarrow>
        delete_first_n_occurences s element (Suc n) = [])"
proof (intro conjI impI)
  show "\<exists>lin. preprocess_mrl s = Inr lin"
    unfolding preprocess_mrl_def Let_def by (rule linearise_returns)
  show "\<exists>lin. linearise s = Inr lin" by (rule linearise_returns)
  show "\<exists>k. count_arguments s = Inr k" by (rule count_arguments_returns)
  show af if "count_loop False 0 0 s = (af, d, nc) \<and> 0 < nc"
    using that count_loop_commas_need_paren by blast
  show "delete_first_n_occurences s element (Suc n) = []"
    if "rsearch ([WordB] @ lit element @ [WordB]) None s 0 = None"
    using that by simp
qed

theorem preprocess_mrl_total_witness:
  "count_loop False 0 0 ''f(a,b)'' = (True, 0, 1) \<and> (0::nat) < 1
   \<and> rsearch ([WordB] @ lit ''c'' @ [WordB]) None ''f(a,b)'' 0 = None
   \<and> delete_first_n_occurences ''f(a,b)'' ''c'' (Suc 0) = []
   \<and> (\<exists>lin. preprocess_mrl ''f(a,b)'' = Inr lin)"
proof -
  have a: "count_loop False 0 0 ''f(a,b)'' = (True, 0, 1) \<and> (0::nat) < 1" by simp
  have b: "rsearch ([WordB] @ lit ''c'' @ [WordB]) None ''f(a,b)'' 0 = None"
    by (simp add: lit_def at_boundary_def is_word_def)
  from preprocess_mrl_total[of "''f(a,b)''" True 0 1 "''c''" 0] a b
  show ?thesis by blast
qed

lemma strip_front_none:
  "find (\<lambda>w. w \<noteq> [] \<and> prefix w s) ws = None \<Longrightarrow> strip_front ws s = s"
  by (subst strip_front.simps) simp

lemma strip_front_some:
  "find (\<lambda>w. w \<noteq> [] \<and> prefix w s) ws = Some w \<Longrightarrow> strip_front ws s = strip_front ws (drop (length w) s)"
  by (subst strip_front.simps) simp

lemma show_nat_small: "n < 10 \<Longrightarrow> show_nat n = [digit_chr n]"
  by (subst show_nat.simps) simp

lemmas eval_cong = option.case_cong_weak list.case_cong_weak prod.case_cong_weak sum.case_cong_weak

lemmas q1_eval = q1_def apo_def lit_def np_def re_sub_def

lemma q1_comma: "re_sub re_comma [G 1, T ''SAVECOMMA'', G 2] q1 = q1"
  by (simp add: q1_eval re_comma_def cong: eval_cong)
lemma q1_bracket_open: "re_sub re_bracket_open [T [CHR '','', apo], G 1, T ''BRACKETOPEN'', G 2, T [apo, CHR '')'']] q1 = q1"
  by (simp add: q1_eval re_bracket_open_def cong: eval_cong)
lemma q1_bracket_close: "re_sub re_bracket_close [T [CHR '','', apo], G 1, T ''BRACKETCLOSE'', G 2, T [apo, CHR '')'']] q1 = q1"
  by (simp add: q1_eval re_bracket_close_def cong: eval_cong)
lemma q1_space: "replace '' '' euro q1 = q1"
  by (simp add: q1_eval replace_eval)
lemma q1_apo: "re_sub re_apo [T ''SAVEAPO''] q1 = q1"
  by (simp add: q1_eval re_apo_def cong: eval_cong)
lemma q1_and: "re_sub re_and [T ''and('', G 1, T (''@s'' @ [apo, CHR '','', apo]), G 2, T ''@s)''] q1 = q1"
  by (simp add: q1_eval re_and_def cong: eval_cong)
lemma q1_leaf: "re_sub re_leaf [T ''('', G 1, T ''@s)''] q1 = ''a(keyval(k'' @ [apo] @ '','' @ [apo] @ ''b@s),b(c))''"
  by (simp add: q1_eval re_leaf_def cong: eval_cong)
lemma q1_or: "re_sub re_or [G 1, T ''or('', G 2, T (''@s'' @ [apo, CHR '','', apo]), G 3, T ''@s)'']
     (''a(keyval(k'' @ [apo] @ '','' @ [apo] @ ''b@s),b(c))'') = ''a(keyval(k'' @ [apo] @ '','' @ [apo] @ ''b@s),b(c))''"
  by (simp add: q1_eval re_or_def cong: eval_cong)
lemma q1_white: "re_sub [One Space, Star Space] [T '' '']
     (''a(keyval(k'' @ [apo] @ '','' @ [apo] @ ''b@s),b(c))'') = ''a(keyval(k'' @ [apo] @ '','' @ [apo] @ ''b@s),b(c))''"
  by (simp add: q1_eval cong: eval_cong)
lemma q1_quotes: "re_sub [One (Ch apo)] [] (''a(keyval(k'' @ [apo] @ '','' @ [apo] @ ''b@s),b(c))'') = ''a(keyval(k,b@s),b(c))''"
  by (simp add: q1_eval cong: eval_cong)
lemma q1_strip: "strip ''a(keyval(k,b@s),b(c))'' = ''a(keyval(k,b@s),b(c))''"
  by (simp add: strip_def uspace_def strip_front_none strip_front_some)


lemmas d_eval = m1_def lit_def at_boundary_def is_word_def

lemma m1_after_a: "delete_first_n_occurences m1 ''a'' (Suc 0) = ''(keyval(k,b@s),b(c))''"
  by (simp add: d_eval cong: eval_cong)
lemma m1_after_keyval: "delete_first_n_occurences m1 ''keyval'' (Suc 0) = ''(k,b@s),b(c))''"
  by (simp add: d_eval cong: eval_cong)
lemma m1_after_k: "delete_first_n_occurences m1 ''k'' (Suc 0) = '',b@s),b(c))''"
  by (simp add: d_eval cong: eval_cong)
lemma m1_after_b: "delete_first_n_occurences m1 ''b'' (Suc 0) = ''@s),b(c))''"
  by (simp add: d_eval cong: eval_cong)
lemma m1_after_c: "delete_first_n_occurences m1 ''c'' (Suc 0) = ''))''"
  by (simp add: d_eval cong: eval_cong)

lemma m1_counts: "count_arguments ''(keyval(k,b@s),b(c))'' = Inr 2"
  "count_arguments ''(k,b@s),b(c))'' = Inr 2"
  "count_arguments '',b@s),b(c))'' = Inr 0"
  "count_arguments ''@s),b(c))'' = Inr 0"
  "count_arguments ''))'' = Inr 0"
  by (simp_all add: count_arguments_def)

lemma show_nat_0_2: "show_nat 0 = ''0''" "show_nat 2 = ''2''"
  by (simp_all add: show_nat_small digit_chr_def)

lemma m1_just_words: "strip (re_sub [One Space, Star Space] [T '' '']
         (replace '','' '' '' (replace '')'' '' '' (replace ''('' '' '' m1))))
       = ''a keyval k b@s b c''"
  by (simp add: m1_def replace_eval re_sub_def strip_def uspace_def strip_front_none strip_front_some
      cong: eval_cong)

lemma m1_split: "split_on CHR '' '' ''a keyval k b@s b c'' = [''a'', ''keyval'', ''k'', ''b@s'', ''b'', ''c'']"
  by simp

lemma m1_endswith: "endswith ''a'' ''@s'' = False" "endswith ''keyval'' ''@s'' = False" "endswith ''k'' ''@s'' = False"
  "endswith ''b@s'' ''@s'' = True" "endswith ''b'' ''@s'' = False" "endswith ''c'' ''@s'' = False"
  by (simp_all add: endswith_def suffix_to_prefix)

lemma m1_loop: "linearise_loop m1 (\<lambda>w. 0) [''a'', ''keyval'', ''k'', ''b@s'', ''b'', ''c'']
   = Inr [''a@2'', ''keyval@2'', ''k@0'', ''b@s'', ''b@0'', ''c@0'']"
  by (simp add: Let_def m1_endswith m1_after_a m1_after_keyval m1_after_k m1_after_b m1_after_c m1_counts show_nat_0_2 del: delete_first_n_occurences.simps)

lemma m1_linearise: "linearise m1 = Inr ''a@2 keyval@2 k@0 b@s b@0 c@0''"
  unfolding linearise_def Let_def m1_just_words m1_split m1_loop by simp

lemma q1_preprocess: "preprocess_mrl q1 = Inr ''a@2 keyval@2 k@0 b@s b@0 c@0''"
proof -
  have "re_sub [One (Ch apo)] [] (''a(keyval(k'' @ [apo] @ '','' @ [apo] @ ''b@s),b(c))'') = m1"
    unfolding m1_def by (rule q1_quotes)
  moreover have "strip m1 = m1" unfolding m1_def by (rule q1_strip)
  ultimately show ?thesis
    unfolding preprocess_mrl_def Let_def q1_comma q1_bracket_open q1_bracket_close q1_space q1_apo
      q1_and q1_leaf q1_or q1_white
    by (simp add: m1_linearise)
qed

text \<open>Claim C1 at a query that is not restored. The string leaf \<open>b\<close> is also the name of
  the functor that follows; the search of \<open>delete_first_n_occurences\<close> for the functor
  stops inside the tagged leaf \<open>b@s\<close>, the functor gets arity 0, and the reconstruction
  is a different string.\<close>

theorem round_trip_fails_on_repeated_name:
  "preprocess_mrl q1 = Inr ''a@2 keyval@2 k@0 b@s b@0 c@0''
   \<and> functionalise ascii_only ''a@2 keyval@2 k@0 b@s b@0 c@0'' None None None False
       = Inr (''a(keyval('' @ [apo] @ ''k'' @ [apo] @ '','' @ [apo] @ ''b'' @ [apo] @ ''),b)c'')
   \<and> ''a(keyval('' @ [apo] @ ''k'' @ [apo] @ '','' @ [apo] @ ''b'' @ [apo] @ ''),b)c'' \<noteq> q1"
proof (intro conjI)
  show "preprocess_mrl q1 = Inr ''a@2 keyval@2 k@0 b@s b@0 c@0''" by (rule q1_preprocess)
  show "functionalise ascii_only ''a@2 keyval@2 k@0 b@s b@0 c@0'' None None None False
       = Inr (''a(keyval('' @ [apo] @ ''k'' @ [apo] @ '','' @ [apo] @ ''b'' @ [apo] @ ''),b)c'')"
    by (simp add: functionalise_def decode_sentinels_def tt_eval)
  show "''a(keyval('' @ [apo] @ ''k'' @ [apo] @ '','' @ [apo] @ ''b'' @ [apo] @ ''),b)c'' \<noteq> q1"
    by (simp add: q1_def)
qed

end
